theory Spec2Isabelle
  imports Main "HOL-Library.AList" "HOL-Library.Sublist"
begin

section \<open>Data model of \<open>hasse.py\<close>\<close>

text \<open>
  The Python class \<open>Poset\<close> holds the element list, the raw relation list, the derived
  covering edges (\<open>hasse_relations\<close>) and the rank groups (\<open>levels\<close>, a dict from rank
  to the list of elements of that rank).  A Python dict is modelled as an association
  list in insertion order: a lookup is \<^const>\<open>map_of\<close>, a store is
  \<^const>\<open>AList.update\<close> (replace in place, or append a new key at the end), and a lookup of
  a missing key is the error \<open>KeyError\<close>.  Python's unbounded integers are \<^typ>\<open>int\<close>.
  The errors are the exceptions the methods can raise: \<open>KeyError\<close>, the \<open>ValueError\<close> of the
  constructor, and the \<open>RecursionError\<close> of a call nested deeper than the interpreter allows.
\<close>

type_synonym ('k, 'v) dict = "('k \<times> 'v) list"

datatype error = KeyError | ValueError | RecursionError

record 'a poset =
  elements :: "'a list"
  relations :: "('a \<times> 'a) list"
  hasse_relations :: "('a \<times> 'a) list"
  levels :: "(int, 'a list) dict"

text \<open>\<open>{elem: v for elem in elements}\<close>: the keys in order of first occurrence.\<close>

definition dict_from_keys :: "'k list \<Rightarrow> 'v \<Rightarrow> ('k, 'v) dict" where
  "dict_from_keys ks v = foldl (\<lambda>d k. AList.update k v d) [] ks"

section \<open>Relation reduction: \<open>build_hasse_diagram\<close>\<close>

text \<open>
  The two nested \<open>for\<close> loops collect \<open>to_remove\<close>; \<open>hs\<close> is \<open>self.hasse_relations\<close>, which
  is a copy of the raw list while the loops run.
\<close>

fun to_remove_inner :: "('a \<times> 'a) list \<Rightarrow> 'a \<times> 'a \<Rightarrow> ('a \<times> 'a) list \<Rightarrow> ('a \<times> 'a) set \<Rightarrow> ('a \<times> 'a) set" where
  "to_remove_inner hs (a, b) [] acc = acc"
| "to_remove_inner hs (a, b) ((c, d) # rs) acc =
     to_remove_inner hs (a, b) rs (if b = c \<and> (a, d) \<in> set hs then insert (a, d) acc else acc)"

fun to_remove_outer :: "('a \<times> 'a) list \<Rightarrow> ('a \<times> 'a) list \<Rightarrow> ('a \<times> 'a) list \<Rightarrow> ('a \<times> 'a) set \<Rightarrow> ('a \<times> 'a) set" where
  "to_remove_outer hs rel [] acc = acc"
| "to_remove_outer hs rel (ab # rs) acc = to_remove_outer hs rel rs (to_remove_inner hs ab rel acc)"

definition build_hasse_diagram :: "('a \<times> 'a) list \<Rightarrow> ('a \<times> 'a) list" where
  "build_hasse_diagram rel =
     (let hs = rel;
          to_remove = to_remove_outer hs rel rel {}
      in filter (\<lambda>r. r \<notin> to_remove) hs)"

section \<open>Reachability: \<open>has_path\<close>\<close>

text \<open>
  The \<open>for\<close> loop inside the \<open>while\<close> loop of \<open>has_path\<close>, for the popped \<open>node\<close>, over the
  remaining covering edges.  It either executes \<open>return True\<close> (\<open>Found\<close>) or falls through
  with the updated \<open>visited\<close> set and \<open>stack\<close>.  The Python list \<open>stack\<close> has its top at the
  end: \<open>pop()\<close> takes \<^const>\<open>last\<close>, \<open>append\<close> adds at the end.
\<close>

datatype 'a scan = Found | Continue "'a set" "'a list"

fun has_path_for :: "('a \<times> 'a) list \<Rightarrow> 'a \<Rightarrow> 'a \<Rightarrow> 'a set \<Rightarrow> 'a list \<Rightarrow> 'a scan" where
  "has_path_for [] node tgt visited stack = Continue visited stack"
| "has_path_for ((a, b) # es) node tgt visited stack =
     (if a = node \<and> b \<notin> visited then
        (if b = tgt then Found
         else has_path_for es node tgt (insert b visited) (stack @ [b]))
      else has_path_for es node tgt visited stack)"

lemma has_path_for_measure:
  "has_path_for es node tgt visited stack = Continue visited' stack' \<Longrightarrow> finite X \<Longrightarrow>
   snd ` set es \<subseteq> X \<Longrightarrow>
   card (X - visited') + length stack' = card (X - visited) + length stack"
proof (induction es node tgt visited stack rule: has_path_for.induct)
  case (1 node tgt visited stack)
  then show ?case by simp
next
  case (2 a b es node tgt visited stack)
  show ?case
  proof (cases "a = node \<and> b \<notin> visited")
    case True
    with "2.prems" have ne: "b \<noteq> tgt" by (auto split: if_splits)
    from True ne "2.prems" have
      "card (X - visited') + length stack' = card (X - insert b visited) + length (stack @ [b])"
      by (intro "2.IH"(1)) auto
    moreover have "b \<in> X - visited" using True "2.prems" by auto
    then have "card (X - insert b visited) + 1 = card (X - visited)"
      using \<open>finite X\<close>
      by (metis Diff_insert One_nat_def Suc_eq_plus1 card_Suc_Diff1 finite_Diff)
    ultimately show ?thesis by simp
  next
    case False
    with "2.prems" show ?thesis by (intro "2.IH"(2)) auto
  qed
qed

function has_path_while :: "('a \<times> 'a) list \<Rightarrow> 'a \<Rightarrow> 'a set \<Rightarrow> 'a list \<Rightarrow> bool" where
  "has_path_while hs tgt visited stack =
     (if stack = [] then False
      else (case has_path_for hs (last stack) tgt visited (butlast stack) of
              Found \<Rightarrow> True
            | Continue visited' stack' \<Rightarrow> has_path_while hs tgt visited' stack'))"
  by pat_completeness auto
termination
proof (relation "measure (\<lambda>(hs, tgt, visited, stack). card (snd ` set hs - visited) + length stack)")
  show "wf (measure (\<lambda>(hs, tgt, visited, stack). card (snd ` set hs - visited) + length stack))"
    by simp
next
  fix hs :: "('a \<times> 'a) list" and tgt visited stack visited' stack'
  assume ne: "stack \<noteq> []"
    and sc: "has_path_for hs (last stack) tgt visited (butlast stack) = Continue visited' stack'"
  have "card (snd ` set hs - visited') + length stack' =
        card (snd ` set hs - visited) + length (butlast stack)"
    by (rule has_path_for_measure [OF sc]) auto
  with ne show "((hs, tgt, visited', stack'), (hs, tgt, visited, stack))
      \<in> measure (\<lambda>(hs, tgt, visited, stack). card (snd ` set hs - visited) + length stack)"
    by (cases stack rule: rev_cases) auto
qed

declare has_path_while.simps [simp del]

text \<open>The query methods read the finished object; the \<open>while\<close> loop runs over its covering edges.\<close>

definition has_path :: "'a poset \<Rightarrow> 'a \<Rightarrow> 'a \<Rightarrow> bool" where
  "has_path p start tgt =
     (if start = tgt then True
      else has_path_while (hasse_relations p) tgt {start} [start])"

section \<open>Bounds and the lattice check\<close>

definition upper_bound :: "'a poset \<Rightarrow> 'a \<Rightarrow> 'a \<Rightarrow> 'a option" where
  "upper_bound p x y =
     (let upper_bounds = filter (\<lambda>z. has_path p x z \<and> has_path p y z) (elements p);
          ub_candidates = filter (\<lambda>z. list_all (\<lambda>u. has_path p u z) upper_bounds) upper_bounds
      in if length ub_candidates = 1 then Some (ub_candidates ! 0) else None)"

definition lower_bound :: "'a poset \<Rightarrow> 'a \<Rightarrow> 'a \<Rightarrow> 'a option" where
  "lower_bound p x y =
     (let lower_bounds = filter (\<lambda>z. has_path p z x \<and> has_path p z y) (elements p);
          lb_candidates = filter (\<lambda>z. list_all (\<lambda>u. has_path p z u) lower_bounds) lower_bounds
      in if length lb_candidates = 1 then Some (lb_candidates ! 0) else None)"

text \<open>\<open>itertools.combinations(xs, 2)\<close>: the pairs of positions \<open>i < j\<close>, in lexicographic order.\<close>

fun combinations2 :: "'a list \<Rightarrow> ('a \<times> 'a) list" where
  "combinations2 [] = []"
| "combinations2 (x # xs) = map (Pair x) xs @ combinations2 xs"

text \<open>
  \<open>is_lattice\<close> tests the bounds with \<open>not\<close>, that is by Python truthiness, which depends on
  the value: \<open>None\<close>, the integer \<open>0\<close> and the empty string are false.  The elements whose
  truthiness is modelled are integers and strings.
\<close>

datatype pyval = PInt int | PStr string

fun truthy :: "pyval option \<Rightarrow> bool" where
  "truthy None = False"
| "truthy (Some (PInt i)) = (i \<noteq> 0)"
| "truthy (Some (PStr s)) = (s \<noteq> [])"

fun is_lattice_for :: "pyval poset \<Rightarrow> (pyval \<times> pyval) list \<Rightarrow> bool" where
  "is_lattice_for p [] = True"
| "is_lattice_for p ((x, y) # ps) =
     (if \<not> truthy (upper_bound p x y) \<or> \<not> truthy (lower_bound p x y) then False
      else is_lattice_for p ps)"

definition is_lattice :: "pyval poset \<Rightarrow> bool" where
  "is_lattice p = is_lattice_for p (combinations2 (elements p))"

section \<open>Cycle detection: \<open>dfs\<close> and \<open>check_for_cycles\<close>\<close>

text \<open>
  \<open>dfs\<close> is recursive and mutates the two dicts \<open>visited\<close> and \<open>stack\<close> it is passed; the model
  threads them and returns them with the result.  \<open>dfs_for\<close> is the \<open>for\<close> loop of \<open>dfs\<close> over
  the remaining covering edges; its boolean is \<open>True\<close> when the loop has executed
  \<open>return True\<close>.  The reads \<open>visited[b]\<close> and \<open>stack[b]\<close> raise \<open>KeyError\<close> on a missing key.

  Python bounds the depth of nested calls by its recursion limit (\<open>sys.getrecursionlimit()\<close>,
  1000 unless the caller changes it; \<open>hasse.py\<close> never does).  A call of \<open>dfs\<close> nested deeper
  than the limit allows raises \<open>RecursionError\<close>, at the call or at the first comparison
  \<open>a == v\<close> of its loop, depending on the interpreter; \<open>hasse.py\<close> catches it nowhere, so it
  leaves \<open>dfs\<close>, every \<open>dfs\<close> above it, \<open>check_for_cycles\<close> and the constructor, and the dicts
  written until then are locals of \<open>check_for_cycles\<close>.  The parameter \<open>frames\<close> is the number
  of nested calls of \<open>dfs\<close> the interpreter still lets run: \<open>dfs\<close> with none left raises, and a
  running \<open>dfs\<close> leaves one fewer to the calls made from its loop.  Under the default limit
  \<open>frames\<close> is below \<open>1000\<close> when \<open>check_for_cycles\<close> calls \<open>dfs\<close>, since the callers hold frames
  of their own.
\<close>

type_synonym 'a flags = "('a, bool) dict"

function dfs :: "nat \<Rightarrow> ('a \<times> 'a) list \<Rightarrow> 'a \<Rightarrow> 'a flags \<Rightarrow> 'a flags \<Rightarrow> error + (bool \<times> 'a flags \<times> 'a flags)"
  and dfs_for :: "nat \<Rightarrow> ('a \<times> 'a) list \<Rightarrow> ('a \<times> 'a) list \<Rightarrow> 'a \<Rightarrow> 'a flags \<Rightarrow> 'a flags \<Rightarrow> error + (bool \<times> 'a flags \<times> 'a flags)"
where
  "dfs frames hs v visited stack =
     (if frames = 0 then Inl RecursionError
      else
        (case dfs_for (frames - 1) hs hs v (AList.update v True visited) (AList.update v True stack) of
           Inl e \<Rightarrow> Inl e
         | Inr (True, visited', stack') \<Rightarrow> Inr (True, visited', stack')
         | Inr (False, visited', stack') \<Rightarrow> Inr (False, visited', AList.update v False stack')))"
| "dfs_for frames hs [] v visited stack = Inr (False, visited, stack)"
| "dfs_for frames hs ((a, b) # es) v visited stack =
     (if a = v then
        (case map_of visited b of
           None \<Rightarrow> Inl KeyError
         | Some False \<Rightarrow>
             (case dfs frames hs b visited stack of
                Inl e \<Rightarrow> Inl e
              | Inr (True, visited', stack') \<Rightarrow> Inr (True, visited', stack')
              | Inr (False, visited', stack') \<Rightarrow> dfs_for frames hs es v visited' stack')
         | Some True \<Rightarrow>
             (case map_of stack b of
                None \<Rightarrow> Inl KeyError
              | Some True \<Rightarrow> Inr (True, visited, stack)
              | Some False \<Rightarrow> dfs_for frames hs es v visited stack))
      else dfs_for frames hs es v visited stack)"
  by pat_completeness auto
termination
  by (relation "measures [
        (\<lambda>x. case x of Inl (frames, hs, v, vis, st) \<Rightarrow> 2 * frames
                      | Inr (frames, hs, es, v, vis, st) \<Rightarrow> 2 * frames + 1),
        (\<lambda>x. case x of Inl _ \<Rightarrow> 0 | Inr (frames, hs, es, v, vis, st) \<Rightarrow> length es)]")
     auto

declare dfs.simps [simp del]

text \<open>\<open>check_for\<close> is the \<open>for\<close> loop of \<open>check_for_cycles\<close> over the remaining elements.\<close>

fun check_for :: "nat \<Rightarrow> ('a \<times> 'a) list \<Rightarrow> 'a list \<Rightarrow> 'a flags \<Rightarrow> 'a flags \<Rightarrow> error + bool" where
  "check_for frames hs [] visited stack = Inr False"
| "check_for frames hs (elem # elems) visited stack =
     (case map_of visited elem of
        None \<Rightarrow> Inl KeyError
      | Some True \<Rightarrow> check_for frames hs elems visited stack
      | Some False \<Rightarrow>
          (case dfs frames hs elem visited stack of
             Inl e \<Rightarrow> Inl e
           | Inr (True, visited', stack') \<Rightarrow> Inr True
           | Inr (False, visited', stack') \<Rightarrow> check_for frames hs elems visited' stack'))"

definition check_for_cycles :: "nat \<Rightarrow> 'a list \<Rightarrow> ('a \<times> 'a) list \<Rightarrow> error + bool" where
  "check_for_cycles frames elems hs =
     (let visited = dict_from_keys elems False;
          stack = dict_from_keys elems False
      in check_for frames hs elems visited stack)"

section \<open>Rank assignment: \<open>assign_levels\<close>\<close>

text \<open>
  \<open>relax_for\<close> is one pass of the \<open>for\<close> loop over the remaining covering edges, threading
  the local dict \<open>levels\<close> (written \<open>lvls\<close>, as \<open>levels\<close> is the field of the object) and
  the flag \<open>changed\<close>.  The \<open>while changed\<close> loop around it need not
  terminate, so \<open>relax_while\<close> is a partial function: \<open>None\<close> is a loop that runs forever.
\<close>

fun relax_for :: "('a \<times> 'a) list \<Rightarrow> ('a, int) dict \<Rightarrow> bool \<Rightarrow> error + (('a, int) dict \<times> bool)" where
  "relax_for [] lvls changed = Inr (lvls, changed)"
| "relax_for ((a, b) # es) lvls changed =
     (case map_of lvls b of
        None \<Rightarrow> Inl KeyError
      | Some lb \<Rightarrow>
          (case map_of lvls a of
             None \<Rightarrow> Inl KeyError
           | Some la \<Rightarrow>
               if lb \<le> la then relax_for es (AList.update b (la + 1) lvls) True
               else relax_for es lvls changed))"

partial_function (option) relax_while :: "('a \<times> 'a) list \<Rightarrow> ('a, int) dict \<Rightarrow> (error + ('a, int) dict) option" where
  "relax_while hs lvls =
     (case relax_for hs lvls False of
        Inl e \<Rightarrow> Some (Inl e)
      | Inr (lvls', changed) \<Rightarrow>
          if changed then relax_while hs lvls' else Some (Inr lvls'))"

declare relax_while.simps [code]

text \<open>
  The same loop cut off after \<open>n\<close> passes over the covering-edge list: \<open>None\<close> when \<open>n\<close>
  passes were not enough for it to stop.
\<close>

fun relax_passes :: "nat \<Rightarrow> ('a \<times> 'a) list \<Rightarrow> ('a, int) dict \<Rightarrow> (error + ('a, int) dict) option" where
  "relax_passes 0 hs lvls = None"
| "relax_passes (Suc n) hs lvls =
     (case relax_for hs lvls False of
        Inl e \<Rightarrow> Some (Inl e)
      | Inr (lvls', changed) \<Rightarrow>
          if changed then relax_passes n hs lvls' else Some (Inr lvls'))"

text \<open>
  The grouping loop over \<open>levels.items()\<close>: a new rank gets an empty list first, then the
  element is appended in place to the list of its rank.
\<close>

fun group_for :: "('a \<times> int) list \<Rightarrow> (int, 'a list) dict \<Rightarrow> (int, 'a list) dict" where
  "group_for [] lv = lv"
| "group_for ((elem, level) # items) lv =
     (let lv1 = (if map_of lv level = None then AList.update level [] lv else lv)
      in group_for items (AList.map_entry level (\<lambda>xs. xs @ [elem]) lv1))"

definition assign_levels :: "'a list \<Rightarrow> ('a \<times> 'a) list \<Rightarrow> (error + (int, 'a list) dict) option" where
  "assign_levels elems hs =
     (case relax_while hs (dict_from_keys elems 0) of
        None \<Rightarrow> None
      | Some (Inl e) \<Rightarrow> Some (Inl e)
      | Some (Inr lvls) \<Rightarrow> Some (Inr (group_for lvls [])))"

section \<open>Construction: \<open>Poset.__init__\<close>\<close>

text \<open>
  The constructor reduces the relations, raises \<open>ValueError\<close> (the spec's \<open>InvalidOrder\<close>) when
  \<open>check_for_cycles\<close> reports a cycle, and assigns the levels otherwise.  A raise leaves the
  caller without an object: the result is \<open>Inl\<close> of the error.  \<open>None\<close> is a constructor that
  does not return.  \<open>frames\<close> is the number of nested calls of \<open>dfs\<close> the interpreter allows
  at the call of \<open>check_for_cycles\<close>; the other methods do not recurse.
\<close>

definition poset_init :: "nat \<Rightarrow> 'a list \<Rightarrow> ('a \<times> 'a) list \<Rightarrow> (error + 'a poset) option" where
  "poset_init frames elems rel =
     (let hs = build_hasse_diagram rel in
      case check_for_cycles frames elems hs of
        Inl e \<Rightarrow> Some (Inl e)
      | Inr True \<Rightarrow> Some (Inl ValueError)
      | Inr False \<Rightarrow>
          (case assign_levels elems hs of
             None \<Rightarrow> None
           | Some (Inl e) \<Rightarrow> Some (Inl e)
           | Some (Inr lv) \<Rightarrow>
               Some (Inr \<lparr>elements = elems, relations = rel, hasse_relations = hs, levels = lv\<rparr>)))"

section \<open>Reduction removes the two-hop shortcuts\<close>

text \<open>The pairs the spec calls shortcuts: \<open>(a, d)\<close> with raw relations \<open>(a, b)\<close> and \<open>(b, d)\<close>.\<close>

definition shortcut :: "('a \<times> 'a) list \<Rightarrow> 'a \<times> 'a \<Rightarrow> bool" where
  "shortcut rel ad = (\<exists>b. (fst ad, b) \<in> set rel \<and> (b, snd ad) \<in> set rel)"

lemma to_remove_inner_set:
  "to_remove_inner hs ab rs acc =
     acc \<union> {(fst ab, d) | d. (snd ab, d) \<in> set rs \<and> (fst ab, d) \<in> set hs}"
proof (induction hs ab rs acc rule: to_remove_inner.induct)
  case (1 hs a b acc)
  show ?case by simp
next
  case (2 hs a b c d rs acc)
  show ?case unfolding to_remove_inner.simps "2.IH" by auto
qed

lemma to_remove_outer_set:
  "to_remove_outer hs rel rs acc =
     acc \<union> {(a, d) | a b d. (a, b) \<in> set rs \<and> (b, d) \<in> set rel \<and> (a, d) \<in> set hs}"
proof (induction rs arbitrary: acc)
  case Nil
  show ?case by simp
next
  case (Cons ab rs)
  show ?case unfolding to_remove_outer.simps Cons.IH to_remove_inner_set
    by (cases ab) auto
qed

lemma to_remove_shortcut:
  "r \<in> to_remove_outer rel rel rel {} \<longleftrightarrow> r \<in> set rel \<and> shortcut rel r"
  unfolding to_remove_outer_set shortcut_def by (cases r) auto

lemma build_hasse_diagram_filter:
  "build_hasse_diagram rel = filter (\<lambda>r. \<not> shortcut rel r) rel"
  unfolding build_hasse_diagram_def Let_def
  by (rule filter_cong) (auto simp: to_remove_shortcut)

lemma count_list_filter_if:
  "count_list (filter P xs) r = (if P r then count_list xs r else 0)"
  by (induction xs) auto

text \<open>
  Claim C4.  The covering edges are the raw relation list without exactly the pairs
  \<open>(a, d)\<close> for which raw relations \<open>(a, b)\<close> and \<open>(b, d)\<close> exist, \<open>(a, d)\<close> being in the raw
  list.  The test is made against the raw list only and the pairs are dropped in one
  filter at the end, so a removal never feeds another one.
\<close>

theorem build_hasse_diagram_removes_shortcuts:
  "build_hasse_diagram rel =
     filter (\<lambda>(a, d). \<not> (\<exists>b. (a, b) \<in> set rel \<and> (b, d) \<in> set rel \<and> (a, d) \<in> set rel)) rel"
  unfolding build_hasse_diagram_filter
  by (rule filter_cong) (auto simp: shortcut_def)

text \<open>
  An instance where a removed pair is itself the witness of another removal: \<open>(1, 3)\<close>
  goes because of \<open>(1, 2), (2, 3)\<close>, and \<open>(1, 4)\<close> goes because of \<open>(1, 3), (3, 4)\<close>.
\<close>

lemma build_hasse_diagram_raw_witness:
  "build_hasse_diagram [(1::int, 2), (2, 3), (1, 3), (3, 4), (1, 4)] = [(1, 2), (2, 3), (3, 4)]"
  by code_simp

text \<open>
  Claim C10.  Reduction never adds edges: the covering-edge list is a subsequence of the
  raw list (so every covering edge is a raw pair and the input order is kept), and a pair
  either keeps all its occurrences or loses all of them.
\<close>

theorem build_hasse_diagram_subseq:
  "subseq (build_hasse_diagram rel) rel \<and>
   set (build_hasse_diagram rel) \<subseteq> set rel \<and>
   (\<forall>r. count_list (build_hasse_diagram rel) r =
     (if r \<in> set (build_hasse_diagram rel) then count_list rel r else 0))"
proof (intro conjI allI)
  show "subseq (build_hasse_diagram rel) rel"
    unfolding build_hasse_diagram_filter by (rule subseq_filter_left)
  show "set (build_hasse_diagram rel) \<subseteq> set rel"
    unfolding build_hasse_diagram_filter by (rule filter_is_subset)
  fix r
  show "count_list (build_hasse_diagram rel) r =
     (if r \<in> set (build_hasse_diagram rel) then count_list rel r else 0)"
    unfolding build_hasse_diagram_filter count_list_filter_if
    by (auto simp: count_list_0_iff)
qed

section \<open>Reachability is the reflexive-transitive closure of the covering edges\<close>

lemma has_path_for_Found:
  "has_path_for es node tgt visited stack = Found \<Longrightarrow> (node, tgt) \<in> set es"
  by (induction es node tgt visited stack rule: has_path_for.induct) (auto split: if_splits)

lemma has_path_for_Continue:
  "has_path_for es node tgt visited stack = Continue visited' stack' \<Longrightarrow>
   visited' = visited \<union> {b. (node, b) \<in> set es} \<and>
   set stack' = set stack \<union> ({b. (node, b) \<in> set es} - visited) \<and>
   (tgt \<in> visited' \<longrightarrow> tgt \<in> visited)"
proof (induction es node tgt visited stack rule: has_path_for.induct)
  case (1 node tgt visited stack)
  then show ?case by simp
next
  case (2 a b es node tgt visited stack)
  show ?case
  proof (cases "a = node \<and> b \<notin> visited")
    case True
    with "2.prems" have ne: "b \<noteq> tgt" by (auto split: if_splits)
    from True ne "2.prems" have
      "has_path_for es node tgt (insert b visited) (stack @ [b]) = Continue visited' stack'"
      by simp
    from "2.IH"(1) [OF True ne this] True ne show ?thesis by auto
  next
    case False
    with "2.prems" have
      "has_path_for es node tgt visited stack = Continue visited' stack'" by auto
    from "2.IH"(2) [OF False this] False show ?thesis by auto
  qed
qed

lemma has_path_while_sound:
  "has_path_while hs tgt visited stack \<Longrightarrow> \<exists>x \<in> set stack. (x, tgt) \<in> (set hs)\<^sup>+"
proof (induction hs tgt visited stack rule: has_path_while.induct)
  case (1 hs tgt visited stack)
  from "1.prems" have ne: "stack \<noteq> []"
    by (subst (asm) has_path_while.simps) (auto split: if_splits)
  then have last_in: "last stack \<in> set stack" by simp
  show ?case
  proof (cases "has_path_for hs (last stack) tgt visited (butlast stack)")
    case Found
    then have "(last stack, tgt) \<in> set hs" by (rule has_path_for_Found)
    with last_in show ?thesis by blast
  next
    case (Continue visited' stack')
    with "1.prems" ne have "has_path_while hs tgt visited' stack'"
      by (subst (asm) has_path_while.simps) simp
    from "1.IH" [OF ne Continue this] obtain x where
      x: "x \<in> set stack'" "(x, tgt) \<in> (set hs)\<^sup>+" by blast
    from has_path_for_Continue [OF Continue] x(1)
    have "x \<in> set (butlast stack) \<or> (last stack, x) \<in> set hs" by auto
    then show ?thesis
    proof
      assume "x \<in> set (butlast stack)"
      then have "x \<in> set stack" by (rule in_set_butlastD)
      with x(2) show ?thesis by blast
    next
      assume "(last stack, x) \<in> set hs"
      from this x(2) have "(last stack, tgt) \<in> (set hs)\<^sup>+" by (rule trancl_into_trancl2)
      with last_in show ?thesis by blast
    qed
  qed
qed

lemma has_path_while_complete:
  "\<not> has_path_while hs tgt visited stack \<Longrightarrow> set stack \<subseteq> visited \<Longrightarrow> tgt \<notin> visited \<Longrightarrow>
   (\<forall>x \<in> visited - set stack. \<forall>y. (x, y) \<in> set hs \<longrightarrow> y \<in> visited) \<Longrightarrow>
   \<exists>V. visited \<subseteq> V \<and> tgt \<notin> V \<and> (\<forall>x \<in> V. \<forall>y. (x, y) \<in> set hs \<longrightarrow> y \<in> V)"
proof (induction hs tgt visited stack rule: has_path_while.induct)
  case (1 hs tgt visited stack)
  show ?case
  proof (cases "stack = []")
    case True
    with "1.prems" show ?thesis by (intro exI [of _ visited]) auto
  next
    case ne: False
    from "1.prems"(1) ne obtain visited' stack' where
      Continue: "has_path_for hs (last stack) tgt visited (butlast stack) = Continue visited' stack'"
      by (subst (asm) has_path_while.simps) (auto split: scan.splits)
    with "1.prems"(1) ne have nw: "\<not> has_path_while hs tgt visited' stack'"
      by (subst (asm) has_path_while.simps) simp
    note C = has_path_for_Continue [OF Continue]
    have st: "set stack = insert (last stack) (set (butlast stack))"
      using ne by (cases stack rule: rev_cases) auto
    have a: "set stack' \<subseteq> visited'" using C "1.prems"(2) st by auto
    have b: "tgt \<notin> visited'" using C "1.prems"(3) by auto
    have c: "\<forall>x \<in> visited' - set stack'. \<forall>y. (x, y) \<in> set hs \<longrightarrow> y \<in> visited'"
    proof (intro ballI allI impI)
      fix x y assume x: "x \<in> visited' - set stack'" and xy: "(x, y) \<in> set hs"
      from x C have xv: "x \<in> visited" and xb: "x \<notin> set (butlast stack)" by auto
      show "y \<in> visited'"
      proof (cases "x = last stack")
        case True
        with xy C show ?thesis by auto
      next
        case False
        with xb st have "x \<notin> set stack" by auto
        with xv xy "1.prems"(4) have "y \<in> visited" by auto
        with C show ?thesis by auto
      qed
    qed
    from "1.IH" [OF ne Continue nw a b c] obtain V where
      "visited' \<subseteq> V \<and> tgt \<notin> V \<and> (\<forall>x \<in> V. \<forall>y. (x, y) \<in> set hs \<longrightarrow> y \<in> V)" by blast
    with C show ?thesis by (intro exI [of _ V]) auto
  qed
qed

lemma closed_rtrancl:
  "(x, y) \<in> r\<^sup>* \<Longrightarrow> x \<in> V \<Longrightarrow> (\<forall>x \<in> V. \<forall>y. (x, y) \<in> r \<longrightarrow> y \<in> V) \<Longrightarrow> y \<in> V"
  by (induction rule: rtrancl_induct) auto

lemma has_path_iff: "has_path p start tgt \<longleftrightarrow> (start, tgt) \<in> (set (hasse_relations p))\<^sup>*"
proof (cases "start = tgt")
  case True
  then show ?thesis by (simp add: has_path_def)
next
  case False
  let ?hs = "hasse_relations p"
  show ?thesis
  proof
    assume "has_path p start tgt"
    with False have "has_path_while ?hs tgt {start} [start]" by (simp add: has_path_def)
    from has_path_while_sound [OF this] show "(start, tgt) \<in> (set ?hs)\<^sup>*" by auto
  next
    assume r: "(start, tgt) \<in> (set ?hs)\<^sup>*"
    show "has_path p start tgt"
    proof (rule ccontr)
      assume "\<not> has_path p start tgt"
      with False have "\<not> has_path_while ?hs tgt {start} [start]" by (simp add: has_path_def)
      from has_path_while_complete [OF this] False obtain V where
        V: "{start} \<subseteq> V" "tgt \<notin> V" "\<forall>x \<in> V. \<forall>y. (x, y) \<in> set ?hs \<longrightarrow> y \<in> V" by auto
      from closed_rtrancl [OF r _ V(3)] V(1) have "tgt \<in> V" by auto
      with V(2) show False by contradiction
    qed
  qed
qed

text \<open>
  Claim C7.  Reachability is reflexive, and transitive: if \<open>a\<close> reaches \<open>b\<close> and \<open>b\<close> reaches
  \<open>c\<close> then \<open>a\<close> reaches \<open>c\<close>.
\<close>

theorem has_path_reflexive_transitive:
  "has_path p x x \<and> (has_path p a b \<and> has_path p b c \<longrightarrow> has_path p a c)"
  unfolding has_path_iff by auto

definition chain3 :: "int poset" where
  "chain3 = \<lparr>elements = [1, 2, 3], relations = [(1, 2), (2, 3)],
             hasse_relations = [(1, 2), (2, 3)], levels = [(0, [1]), (1, [2]), (2, [3])]\<rparr>"

theorem has_path_reflexive_transitive_witness:
  "has_path chain3 1 2 \<and> has_path chain3 2 3 \<and> has_path chain3 1 3 \<and> has_path chain3 2 2"
proof -
  have a: "has_path chain3 1 2" by code_simp
  have b: "has_path chain3 2 3" by code_simp
  from has_path_reflexive_transitive [of chain3 2 1 2 3] a b show ?thesis by blast
qed

section \<open>The bounds against the spec, and the lattice check\<close>

text \<open>
  The bounds in the words of the spec: \<open>spec_U\<close> is the set of common successors,
  \<open>spec_L\<close> the set of common predecessors, and a candidate is a member that every member
  reaches (upper) or that reaches every member (lower).
\<close>

definition spec_U :: "'a poset \<Rightarrow> 'a \<Rightarrow> 'a \<Rightarrow> 'a set" where
  "spec_U p x y = {z \<in> set (elements p). has_path p x z \<and> has_path p y z}"

definition spec_L :: "'a poset \<Rightarrow> 'a \<Rightarrow> 'a \<Rightarrow> 'a set" where
  "spec_L p x y = {z \<in> set (elements p). has_path p z x \<and> has_path p z y}"

definition spec_upper :: "'a poset \<Rightarrow> 'a \<Rightarrow> 'a \<Rightarrow> 'a \<Rightarrow> bool" where
  "spec_upper p x y z = (z \<in> spec_U p x y \<and> (\<forall>u \<in> spec_U p x y. has_path p u z))"

definition spec_lower :: "'a poset \<Rightarrow> 'a \<Rightarrow> 'a \<Rightarrow> 'a \<Rightarrow> bool" where
  "spec_lower p x y z = (z \<in> spec_L p x y \<and> (\<forall>u \<in> spec_L p x y. has_path p z u))"

lemma singleton_filter_unique:
  assumes "distinct xs"
  shows "(if length (filter P xs) = 1 then Some (filter P xs ! 0) else None) =
         (if \<exists>!z. z \<in> set xs \<and> P z then Some (THE z. z \<in> set xs \<and> P z) else None)"
proof (cases "length (filter P xs) = 1")
  case True
  then obtain z where z: "filter P xs = [z]"
    by (cases "filter P xs") auto
  have u: "(w \<in> set xs \<and> P w) = (w = z)" for w
  proof -
    have "w \<in> set (filter P xs) \<longleftrightarrow> w = z" unfolding z by simp
    then show ?thesis by simp
  qed
  have ex: "\<exists>!z. z \<in> set xs \<and> P z" unfolding u by simp
  have "(THE w. w \<in> set xs \<and> P w) = z" unfolding u by simp
  then have "Some (filter P xs ! 0) = Some (THE z. z \<in> set xs \<and> P z)"
    unfolding z by simp
  with ex True show ?thesis by (simp only: if_True refl)
next
  case False
  have "\<not> (\<exists>!z. z \<in> set xs \<and> P z)"
  proof
    assume "\<exists>!z. z \<in> set xs \<and> P z"
    then obtain z where z1: "z \<in> set xs" "P z" and z2: "\<forall>w. w \<in> set xs \<and> P w \<longrightarrow> w = z"
      by blast
    have "w \<in> set (filter P xs) \<longleftrightarrow> w \<in> {z}" for w
      unfolding set_filter mem_Collect_eq singleton_iff using z1 z2 by blast
    then have sz: "set (filter P xs) = {z}" by (rule set_eqI)
    have "distinct (filter P xs)" using assms by (rule distinct_filter)
    then have "card (set (filter P xs)) = length (filter P xs)" by (rule distinct_card)
    then have "length (filter P xs) = card {z}" unfolding sz by (rule sym)
    also have "card {z} = 1" by simp
    finally have "length (filter P xs) = 1" .
    with False show False by contradiction
  qed
  with False show ?thesis by (simp only: if_False)
qed


lemma upper_bound_spec:
  assumes "distinct (elements p)"
  shows "upper_bound p x y =
    (if \<exists>!z. spec_upper p x y z then Some (THE z. spec_upper p x y z) else None)"
proof -
  let ?ub = "filter (\<lambda>z. has_path p x z \<and> has_path p y z) (elements p)"
  have s: "set ?ub = spec_U p x y" by (auto simp: spec_U_def)
  have d: "distinct ?ub" using assms by simp
  have e: "\<And>z. (z \<in> set ?ub \<and> list_all (\<lambda>u. has_path p u z) ?ub) = spec_upper p x y z"
    unfolding spec_upper_def s [symmetric] list_all_iff by simp
  show ?thesis
    unfolding upper_bound_def Let_def singleton_filter_unique [OF d] e ..
qed

lemma lower_bound_spec:
  assumes "distinct (elements p)"
  shows "lower_bound p x y =
    (if \<exists>!z. spec_lower p x y z then Some (THE z. spec_lower p x y z) else None)"
proof -
  let ?lb = "filter (\<lambda>z. has_path p z x \<and> has_path p z y) (elements p)"
  have s: "set ?lb = spec_L p x y" by (auto simp: spec_L_def)
  have d: "distinct ?lb" using assms by simp
  have e: "\<And>z. (z \<in> set ?lb \<and> list_all (\<lambda>u. has_path p z u) ?lb) = spec_lower p x y z"
    unfolding spec_lower_def s [symmetric] list_all_iff by simp
  show ?thesis
    unfolding lower_bound_def Let_def singleton_filter_unique [OF d] e ..
qed

text \<open>
  Claim C2.  On a duplicate-free element list, \<open>upper_bound\<close> returns the one candidate of
  the spec (the member of \<open>U\<close> that every member of \<open>U\<close> reaches) when exactly one exists and
  \<open>None\<close> otherwise, and \<open>lower_bound\<close> does the same with \<open>L\<close> and the member that reaches every
  member of \<open>L\<close>.  Both are total functions: they return for every pair of arguments.
\<close>

theorem upper_lower_bound_unique_candidate:
  assumes "distinct (elements p)"
  shows "upper_bound p x y =
           (if \<exists>!z. spec_upper p x y z then Some (THE z. spec_upper p x y z) else None) \<and>
         lower_bound p x y =
           (if \<exists>!z. spec_lower p x y z then Some (THE z. spec_lower p x y z) else None)"
  using upper_bound_spec [OF assms] lower_bound_spec [OF assms] by blast

definition vee :: "int poset" where
  "vee = \<lparr>elements = [1, 2, 3], relations = [(1, 3), (2, 3)],
          hasse_relations = [(1, 3), (2, 3)], levels = [(0, [1, 2]), (1, [3])]\<rparr>"

theorem upper_lower_bound_unique_candidate_witness:
  "distinct (elements vee) \<and> upper_bound vee 1 2 = Some 3 \<and> lower_bound vee 1 2 = None \<and>
   (\<exists>!z. spec_upper vee 1 2 z) \<and> (THE z. spec_upper vee 1 2 z) = 3 \<and>
   \<not> (\<exists>!z. spec_lower vee 1 2 z)"
proof -
  have d: "distinct (elements vee)" by (simp add: vee_def)
  have u: "upper_bound vee 1 2 = Some 3" by code_simp
  have l: "lower_bound vee 1 2 = None" by code_simp
  from upper_lower_bound_unique_candidate [OF d, of 1 2] u l
  have "(if \<exists>!z. spec_upper vee 1 2 z then Some (THE z. spec_upper vee 1 2 z) else None) = Some 3"
    and "(if \<exists>!z. spec_lower vee 1 2 z then Some (THE z. spec_lower vee 1 2 z) else None) = None"
    by simp_all
  then have "(\<exists>!z. spec_upper vee 1 2 z) \<and> (THE z. spec_upper vee 1 2 z) = 3"
    and "\<not> (\<exists>!z. spec_lower vee 1 2 z)"
    by (simp_all split: if_splits)
  with d u l show ?thesis by blast
qed

text \<open>
  \<open>is_lattice\<close> tests each bound with \<open>not\<close>.  Where every element is truthy the test is
  the one the spec describes: \<open>is_lattice\<close> holds exactly when both bounds of every pair of
  positions are present.
\<close>

lemma bound_in_elements:
  "upper_bound p x y = Some z \<Longrightarrow> z \<in> set (elements p)"
  "lower_bound p x y = Some z \<Longrightarrow> z \<in> set (elements p)"
proof -
  have nth0: "\<And>P xs. length (filter P xs) = 1 \<Longrightarrow> filter P xs ! 0 \<in> set (filter P xs)"
    by (metis nth_mem zero_less_one)
  show "upper_bound p x y = Some z \<Longrightarrow> z \<in> set (elements p)"
    unfolding upper_bound_def Let_def using nth0 by (fastforce split: if_splits)
  show "lower_bound p x y = Some z \<Longrightarrow> z \<in> set (elements p)"
    unfolding lower_bound_def Let_def using nth0 by (fastforce split: if_splits)
qed

lemma is_lattice_for_truthy:
  assumes "\<forall>e \<in> set (elements p). truthy (Some e)"
  shows "is_lattice_for p ps \<longleftrightarrow>
         (\<forall>(x, y) \<in> set ps. upper_bound p x y \<noteq> None \<and> lower_bound p x y \<noteq> None)"
proof (induction ps)
  case Nil
  show ?case by simp
next
  case (Cons xy ps)
  obtain x y where xy: "xy = (x, y)" by (cases xy)
  have u: "truthy (upper_bound p x y) \<longleftrightarrow> upper_bound p x y \<noteq> None"
    using assms bound_in_elements(1) [of p x y] by (cases "upper_bound p x y") auto
  have l: "truthy (lower_bound p x y) \<longleftrightarrow> lower_bound p x y \<noteq> None"
    using assms bound_in_elements(2) [of p x y] by (cases "lower_bound p x y") auto
  show ?case unfolding xy using Cons.IH u l by simp
qed

section \<open>The rank loop: one pass as a function on rank assignments\<close>

text \<open>
  For the proofs a dict of ranks is read as a total function (\<open>0\<close> off its keys), and one
  pass of the \<open>for\<close> loop as a function \<open>pass\<close> on such assignments.
\<close>

definition lvl :: "('a, int) dict \<Rightarrow> 'a \<Rightarrow> int" where
  "lvl l x = (case map_of l x of Some k \<Rightarrow> k | None \<Rightarrow> 0)"

fun pass :: "('a \<times> 'a) list \<Rightarrow> ('a \<Rightarrow> int) \<Rightarrow> 'a \<Rightarrow> int" where
  "pass [] f = f"
| "pass ((a, b) # es) f = pass es (if f b \<le> f a then f(b := f a + 1) else f)"

lemma pass_mono: "f x \<le> pass es f x"
proof (induction es arbitrary: f)
  case Nil
  show ?case by simp
next
  case (Cons e es)
  obtain a b where e: "e = (a, b)" by (cases e)
  let ?g = "if f b \<le> f a then f(b := f a + 1) else f"
  have "f x \<le> ?g x" by simp
  also have "?g x \<le> pass es ?g x" by (rule Cons.IH)
  finally show ?case unfolding e by simp
qed

lemma pass_edge: "(a, x) \<in> set es \<Longrightarrow> f a + 1 \<le> pass es f x"
proof (induction es arbitrary: f)
  case Nil
  then show ?case by simp
next
  case (Cons e es)
  obtain a0 b0 where e: "e = (a0, b0)" by (cases e)
  let ?g = "if f b0 \<le> f a0 then f(b0 := f a0 + 1) else f"
  have p: "pass (e # es) f = pass es ?g" unfolding e by simp
  show ?case
  proof (cases "(a, x) = (a0, b0)")
    case True
    then have "f a + 1 \<le> ?g x" by auto
    also have "?g x \<le> pass es ?g x" by (rule pass_mono)
    finally show ?thesis unfolding p .
  next
    case False
    with Cons.prems e have "(a, x) \<in> set es" by auto
    then have "?g a + 1 \<le> pass es ?g x" by (rule Cons.IH)
    moreover have "f a \<le> ?g a" by simp
    ultimately show ?thesis unfolding p by linarith
  qed
qed

lemma pass_stable:
  "(\<forall>a. (a, x) \<in> set es \<longrightarrow> pass es f a < f x) \<Longrightarrow> pass es f x = f x"
proof (induction es arbitrary: f)
  case Nil
  show ?case by simp
next
  case (Cons e es)
  obtain a0 b0 where e: "e = (a0, b0)" by (cases e)
  let ?g = "if f b0 \<le> f a0 then f(b0 := f a0 + 1) else f"
  have p: "pass (e # es) f = pass es ?g" unfolding e by simp
  have gx: "?g x = f x"
  proof (cases "b0 = x")
    case True
    with Cons.prems e have "pass (e # es) f a0 < f x" by simp
    moreover have "f a0 \<le> pass (e # es) f a0" by (rule pass_mono)
    ultimately show ?thesis using True by simp
  next
    case False
    then show ?thesis by simp
  qed
  have "\<forall>a. (a, x) \<in> set es \<longrightarrow> pass es ?g a < ?g x"
    using Cons.prems unfolding p gx e by simp
  then have "pass es ?g x = ?g x" by (rule Cons.IH)
  then show ?case unfolding p gx .
qed

lemma map_of_in_keys: "k \<in> fst ` set l \<Longrightarrow> \<exists>v. map_of l k = Some v"
  by (cases "map_of l k") (auto simp: map_of_eq_None_iff)

lemma lvl_Some: "map_of l k = Some v \<Longrightarrow> lvl l k = v"
  by (simp add: lvl_def)

lemma lvl_update: "lvl (AList.update k v l) = (lvl l)(k := v)"
  by (rule ext) (simp add: lvl_def update_conv')

lemma update_keys_same: "k \<in> fst ` set l \<Longrightarrow> map fst (AList.update k v l) = map fst l"
  by (simp add: update_keys)

definition endpoints :: "('a \<times> 'a) list \<Rightarrow> 'a set" where
  "endpoints es = fst ` set es \<union> snd ` set es"

lemma endpoints_Cons: "endpoints ((a, b) # es) = insert a (insert b (endpoints es))"
  by (auto simp: endpoints_def)

lemma relax_for_pass:
  "endpoints es \<subseteq> fst ` set l \<Longrightarrow>
   \<exists>l'. relax_for es l c = Inr (l', c \<or> pass es (lvl l) \<noteq> lvl l) \<and>
        lvl l' = pass es (lvl l) \<and> map fst l' = map fst l"
proof (induction es arbitrary: l c)
  case Nil
  show ?case by simp
next
  case (Cons e es)
  obtain a b where e: "e = (a, b)" by (cases e)
  from Cons.prems have ab: "a \<in> fst ` set l" "b \<in> fst ` set l" and es: "endpoints es \<subseteq> fst ` set l"
    unfolding e endpoints_Cons by auto
  from ab obtain la lb where la: "map_of l a = Some la" and lb: "map_of l b = Some lb"
    using map_of_in_keys by metis
  have fa: "lvl l a = la" and fb: "lvl l b = lb" using la lb by (simp_all add: lvl_Some)
  show ?case
  proof (cases "lb \<le> la")
    case True
    let ?l1 = "AList.update b (la + 1) l"
    have k1: "map fst ?l1 = map fst l" using ab(2) by (rule update_keys_same)
    then have "fst ` set ?l1 = fst ` set l" by (metis set_map)
    with es have "endpoints es \<subseteq> fst ` set ?l1" by simp
    from Cons.IH [OF this, of True] obtain l' where
      r: "relax_for es ?l1 True = Inr (l', True)" and
      f: "lvl l' = pass es (lvl ?l1)" and k: "map fst l' = map fst ?l1" by auto
    have g: "lvl ?l1 = (lvl l)(b := lvl l a + 1)" unfolding lvl_update fa ..
    have "pass es (lvl ?l1) b \<ge> lvl ?l1 b" by (rule pass_mono)
    then have "pass es (lvl ?l1) b \<noteq> lvl l b" using True unfolding g fa fb by simp
    then have ne: "pass (e # es) (lvl l) \<noteq> lvl l"
      unfolding e using True fa fb g by auto
    have "relax_for (e # es) l c = Inr (l', True)"
      unfolding e using la lb True r by simp
    moreover have "lvl l' = pass (e # es) (lvl l)"
      unfolding e using True fa fb f g by simp
    ultimately show ?thesis using ne k k1 by simp
  next
    case False
    from Cons.IH [OF es, of c] obtain l' where
      r: "relax_for es l c = Inr (l', c \<or> pass es (lvl l) \<noteq> lvl l)" and
      f: "lvl l' = pass es (lvl l)" and k: "map fst l' = map fst l" by auto
    have p: "pass (e # es) (lvl l) = pass es (lvl l)"
      unfolding e using False fa fb by simp
    have "relax_for (e # es) l c = relax_for es l c"
      unfolding e using la lb False by simp
    with r f k p show ?thesis by simp
  qed
qed

lemma relax_for_KeyError:
  "\<not> endpoints es \<subseteq> fst ` set l \<Longrightarrow> relax_for es l c = Inl KeyError"
proof (induction es arbitrary: l c)
  case Nil
  then show ?case by (simp add: endpoints_def)
next
  case (Cons e es)
  obtain a b where e: "e = (a, b)" by (cases e)
  show ?case
  proof (cases "map_of l b")
    case None
    then show ?thesis unfolding e by simp
  next
    case lb: (Some lb)
    show ?thesis
    proof (cases "map_of l a")
      case None
      with lb show ?thesis unfolding e by simp
    next
      case la: (Some la)
      from la lb have ab: "a \<in> fst ` set l" "b \<in> fst ` set l"
        by (metis map_of_eq_None_iff option.distinct(1))+
      with Cons.prems have es: "\<not> endpoints es \<subseteq> fst ` set l"
        unfolding e endpoints_Cons by auto
      show ?thesis
      proof (cases "lb \<le> la")
        case True
        have "fst ` set (AList.update b (la + 1) l) = fst ` set l"
          using ab(2) by (auto simp: dom_update)
        with es have "\<not> endpoints es \<subseteq> fst ` set (AList.update b (la + 1) l)" by simp
        from Cons.IH [OF this] show ?thesis unfolding e using la lb True by simp
      next
        case False
        from Cons.IH [OF es] show ?thesis unfolding e using la lb False by simp
      qed
    qed
  qed
qed

text \<open>
  \<open>layer E n\<close> is the set of nodes all of whose incoming paths have fewer than \<open>n\<close> edges:
  the nodes of \<open>layer E (Suc n)\<close> have all their predecessors in \<open>layer E n\<close>.
\<close>

fun layer :: "('a \<times> 'a) set \<Rightarrow> nat \<Rightarrow> 'a set" where
  "layer E 0 = {}"
| "layer E (Suc n) = {x. \<forall>y. (y, x) \<in> E \<longrightarrow> y \<in> layer E n}"

lemma layer_Suc_mono: "layer E n \<subseteq> layer E (Suc n)"
proof (induction n)
  case 0
  show ?case by simp
next
  case (Suc n)
  show ?case
  proof
    fix x assume "x \<in> layer E (Suc n)"
    then have "\<forall>y. (y, x) \<in> E \<longrightarrow> y \<in> layer E n" by simp
    with Suc have "\<forall>y. (y, x) \<in> E \<longrightarrow> y \<in> layer E (Suc n)" by blast
    then show "x \<in> layer E (Suc (Suc n))" by (simp del: layer.simps add: layer.simps(2) [of E "Suc n"])
  qed
qed

lemma layer_mono: "m \<le> n \<Longrightarrow> layer E m \<subseteq> layer E n"
proof (induction n)
  case 0
  then show ?case by simp
next
  case (Suc n)
  show ?case
  proof (cases "m = Suc n")
    case True
    then show ?thesis by simp
  next
    case False
    with Suc.prems have "m \<le> n" by simp
    then have "layer E m \<subseteq> layer E n" by (rule Suc.IH)
    also have "layer E n \<subseteq> layer E (Suc n)" by (rule layer_Suc_mono)
    finally show ?thesis .
  qed
qed

declare layer.simps(2) [simp del]

lemma layer_stable:
  "x \<in> layer (set hs) (Suc n) \<Longrightarrow> n \<le> j \<Longrightarrow> (pass hs ^^ j) f x = (pass hs ^^ n) f x"
proof (induction n arbitrary: x j)
  case 0
  then have nopred: "\<And>a g. (a, x) \<in> set hs \<longrightarrow> pass hs g a < g x"
    by (simp add: layer.simps(2))
  show ?case
  proof (induction j)
    case 0
    show ?case by simp
  next
    case (Suc j)
    have "pass hs ((pass hs ^^ j) f) x = (pass hs ^^ j) f x"
      by (rule pass_stable) (use nopred in blast)
    with Suc show ?case by simp
  qed
next
  case (Suc n)
  let ?h = "(pass hs ^^ n) f"
  have pred: "\<And>a i. (a, x) \<in> set hs \<Longrightarrow> n \<le> i \<Longrightarrow> (pass hs ^^ i) f a = ?h a"
  proof -
    fix a i assume "(a, x) \<in> set hs" "n \<le> i"
    with Suc.prems(1) have "a \<in> layer (set hs) (Suc n)"
      by (simp add: layer.simps(2) [of _ "Suc n"])
    from Suc.IH [OF this \<open>n \<le> i\<close>] show "(pass hs ^^ i) f a = ?h a" .
  qed
  from Suc.prems(2) show ?case
  proof (induction j rule: dec_induct)
    case base
    show ?case ..
  next
    case (step j)
    let ?g = "(pass hs ^^ j) f"
    have gx: "?g x = pass hs ?h x" using step.IH by simp
    have "pass hs ?g x = ?g x"
    proof (rule pass_stable, intro allI impI)
      fix a assume a: "(a, x) \<in> set hs"
      have "pass hs ?g a = (pass hs ^^ Suc j) f a" by simp
      also have "\<dots> = ?h a" using step.hyps by (intro pred [OF a]) simp
      also have "\<dots> < ?h a + 1" by simp
      also have "\<dots> \<le> pass hs ?h x" using a by (rule pass_edge)
      finally show "pass hs ?g a < ?g x" unfolding gx .
    qed
    then show ?case using step.IH by simp
  qed
qed

lemma layer_cover_step:
  assumes "acyclic E" "finite E" "finite V" "Domain E \<subseteq> V"
  shows "V \<subseteq> layer E k \<or> k \<le> card (V \<inter> layer E k)"
proof (induction k)
  case 0
  show ?case by simp
next
  case (Suc k)
  show ?case
  proof (cases "V \<subseteq> layer E k")
    case True
    with layer_Suc_mono [of E k] show ?thesis by blast
  next
    case False
    with Suc have k: "k \<le> card (V \<inter> layer E k)" by simp
    from assms(1,2) have "wf E" by (simp add: finite_acyclic_wf)
    moreover from False obtain q where "q \<in> V - layer E k" by blast
    ultimately obtain z where z: "z \<in> V - layer E k"
      and zmin: "\<And>y. (y, z) \<in> E \<Longrightarrow> y \<notin> V - layer E k"
      by (rule wfE_min) blast
    have "z \<in> layer E (Suc k)"
    proof (simp add: layer.simps(2), intro allI impI)
      fix y assume y: "(y, z) \<in> E"
      then have "y \<in> V" using assms(4) by blast
      with zmin [OF y] show "y \<in> layer E k" by blast
    qed
    with z have "insert z (V \<inter> layer E k) \<subseteq> V \<inter> layer E (Suc k)"
      using layer_Suc_mono [of E k] by blast
    then have "card (insert z (V \<inter> layer E k)) \<le> card (V \<inter> layer E (Suc k))"
      using assms(3) by (intro card_mono) auto
    moreover have "card (insert z (V \<inter> layer E k)) = Suc (card (V \<inter> layer E k))"
      using z assms(3) by (intro card_insert_disjoint) auto
    ultimately show ?thesis using k by simp
  qed
qed

lemma layer_cover:
  assumes "acyclic E" "finite E" "finite V" "Domain E \<subseteq> V"
  shows "V \<subseteq> layer E (card V)"
proof -
  from layer_cover_step [OF assms, of "card V"] show ?thesis
  proof
    assume "card V \<le> card (V \<inter> layer E (card V))"
    moreover have "V \<inter> layer E (card V) \<subseteq> V" by blast
    ultimately have "V \<inter> layer E (card V) = V"
      using assms(3) by (intro card_seteq) auto
    then show ?thesis by blast
  qed
qed

lemma pass_fixpoint:
  assumes ac: "acyclic (set hs)" and ep: "endpoints hs \<subseteq> V" and fin: "finite V"
  shows "(pass hs ^^ max 1 (card V)) f = (pass hs ^^ (max 1 (card V) - 1)) f"
proof (rule ext)
  fix x
  let ?N = "max 1 (card V)"
  have dom: "Domain (set hs) \<subseteq> V" using ep by (force simp: endpoints_def)
  have "x \<in> layer (set hs) ?N"
  proof (cases "x \<in> V")
    case True
    with layer_cover [OF ac _ fin dom] have "x \<in> layer (set hs) (card V)" by auto
    with layer_mono [of "card V" ?N "set hs"] show ?thesis by auto
  next
    case False
    with ep have "\<And>y. (y, x) \<notin> set hs" by (force simp: endpoints_def)
    then have "x \<in> layer (set hs) (Suc 0)" by (simp add: layer.simps(2))
    with layer_mono [of "Suc 0" ?N "set hs"] show ?thesis by auto
  qed
  then have "x \<in> layer (set hs) (Suc (?N - 1))" by simp
  from layer_stable [OF this, of ?N f] show "(pass hs ^^ ?N) f x = (pass hs ^^ (?N - 1)) f x"
    by simp
qed

lemma relax_passes_stop:
  "endpoints hs \<subseteq> fst ` set l \<Longrightarrow> (pass hs ^^ Suc n) (lvl l) = (pass hs ^^ n) (lvl l) \<Longrightarrow>
   \<exists>r. relax_passes (Suc n) hs l = Some (Inr r) \<and> map fst r = map fst l"
proof (induction n arbitrary: l)
  case 0
  from relax_for_pass [OF "0.prems"(1), of False] "0.prems"(2)
  show ?case by auto
next
  case (Suc n)
  from relax_for_pass [OF Suc.prems(1), of False] obtain l' where
    r: "relax_for hs l False = Inr (l', pass hs (lvl l) \<noteq> lvl l)" and
    f: "lvl l' = pass hs (lvl l)" and k: "map fst l' = map fst l" by auto
  show ?case
  proof (cases "pass hs (lvl l) = lvl l")
    case True
    with r k show ?thesis by simp
  next
    case False
    from k have "fst ` set l' = fst ` set l" by (metis set_map)
    with Suc.prems(1) have e: "endpoints hs \<subseteq> fst ` set l'" by simp
    have "(pass hs ^^ Suc n) (lvl l') = (pass hs ^^ n) (lvl l')"
      using Suc.prems(2) unfolding f by (simp add: funpow_swap1)
    from Suc.IH [OF e this] obtain q where
      "relax_passes (Suc n) hs l' = Some (Inr q)" "map fst q = map fst l'" by auto
    with r False k show ?thesis by simp
  qed
qed

lemma relax_passes_while:
  "relax_passes n hs l = Some r \<Longrightarrow> relax_while hs l = Some r"
proof (induction n arbitrary: l)
  case 0
  then show ?case by simp
next
  case (Suc n)
  show ?case
  proof (cases "relax_for hs l False")
    case (Inl e)
    with Suc.prems show ?thesis by (subst relax_while.simps) simp
  next
    case (Inr res)
    obtain l' c where res: "res = (l', c)" by (cases res)
    show ?thesis
    proof (cases c)
      case True
      with Suc.prems Inr res have "relax_passes n hs l' = Some r" by simp
      then have "relax_while hs l' = Some r" by (rule Suc.IH)
      with Inr res True show ?thesis by (subst relax_while.simps) simp
    next
      case False
      with Suc.prems Inr res show ?thesis by (subst relax_while.simps) simp
    qed
  qed
qed

lemma dict_from_keys_keys:
  "fst ` set (dict_from_keys ks v) = set ks" "distinct (map fst (dict_from_keys ks v))"
proof -
  have "fst ` set (foldl (\<lambda>d k. AList.update k v d) d0 ks) = fst ` set d0 \<union> set ks \<and>
        (distinct (map fst d0) \<longrightarrow> distinct (map fst (foldl (\<lambda>d k. AList.update k v d) d0 ks)))"
    for d0 :: "('a \<times> 'b) list"
    by (induction ks arbitrary: d0) (auto simp: dom_update distinct_update)
  from this [of "[]"] show "fst ` set (dict_from_keys ks v) = set ks"
    "distinct (map fst (dict_from_keys ks v))"
    by (simp_all add: dict_from_keys_def)
qed

lemma relax_terminates:
  assumes "acyclic (set hs)"
  shows "\<exists>r. relax_passes (max 1 (card (set elems))) hs (dict_from_keys elems 0) = Some r \<and>
             relax_while hs (dict_from_keys elems 0) = Some r"
proof -
  let ?l = "dict_from_keys elems (0::int)"
  let ?N = "max 1 (card (set elems))"
  obtain m where N: "?N = Suc m" and m: "m = ?N - 1" by (cases ?N) auto
  have "\<exists>r. relax_passes (Suc m) hs ?l = Some r"
  proof (cases "endpoints hs \<subseteq> set elems")
    case True
    then have e: "endpoints hs \<subseteq> fst ` set ?l" by (simp add: dict_from_keys_keys)
    from pass_fixpoint [OF assms True, of "lvl ?l"]
    have "(pass hs ^^ Suc m) (lvl ?l) = (pass hs ^^ m) (lvl ?l)"
      unfolding N m [symmetric] by simp
    from relax_passes_stop [OF e this] show ?thesis by blast
  next
    case False
    then have "\<not> endpoints hs \<subseteq> fst ` set ?l" by (simp add: dict_from_keys_keys)
    then have "relax_for hs ?l False = Inl KeyError" by (rule relax_for_KeyError)
    then have "relax_passes (Suc m) hs ?l = Some (Inl KeyError)" by simp
    then show ?thesis by blast
  qed
  then have "\<exists>r. relax_passes ?N hs ?l = Some r" unfolding N .
  then obtain r where "relax_passes ?N hs ?l = Some r" ..
  with relax_passes_while [OF this] show ?thesis by blast
qed

section \<open>What the rank loop returns\<close>

definition nonneg :: "('a, int) dict \<Rightarrow> bool" where
  "nonneg l = (\<forall>k v. map_of l k = Some v \<longrightarrow> 0 \<le> v)"

definition ranked :: "('a \<times> 'a) list \<Rightarrow> ('a, int) dict \<Rightarrow> bool" where
  "ranked es l = (\<forall>(a, b) \<in> set es. \<exists>la lb. map_of l a = Some la \<and> map_of l b = Some lb \<and> la < lb)"

lemma relax_for_result:
  "relax_for es l c = Inr (l', c') \<Longrightarrow>
   map fst l' = map fst l \<and> (nonneg l \<longrightarrow> nonneg l') \<and> (c \<longrightarrow> c') \<and>
   (\<not> c' \<longrightarrow> l' = l \<and> ranked es l)"
proof (induction es arbitrary: l c)
  case Nil
  then show ?case by (simp add: ranked_def)
next
  case (Cons e es)
  obtain a b where e: "e = (a, b)" by (cases e)
  from Cons.prems obtain lb where lb: "map_of l b = Some lb"
    unfolding e by (cases "map_of l b") auto
  from Cons.prems lb obtain la where la: "map_of l a = Some la"
    unfolding e by (cases "map_of l a") auto
  show ?case
  proof (cases "lb \<le> la")
    case True
    let ?l1 = "AList.update b (la + 1) l"
    from Cons.prems la lb True have r: "relax_for es ?l1 True = Inr (l', c')"
      unfolding e by simp
    note IH = Cons.IH [OF r]
    have "b \<in> fst ` set l" using lb by (metis map_of_eq_None_iff option.distinct(1))
    then have k: "map fst ?l1 = map fst l" by (rule update_keys_same)
    have n: "nonneg l \<longrightarrow> nonneg ?l1"
    proof
      assume nn: "nonneg l"
      with la have "0 \<le> la" unfolding nonneg_def by blast
      with nn show "nonneg ?l1" unfolding nonneg_def update_conv' by auto
    qed
    from IH k n show ?thesis by simp
  next
    case False
    from Cons.prems la lb False have r: "relax_for es l c = Inr (l', c')"
      unfolding e by simp
    note IH = Cons.IH [OF r]
    have "\<not> c' \<longrightarrow> ranked (e # es) l"
    proof
      assume "\<not> c'"
      with IH have "ranked es l" by simp
      with la lb False show "ranked (e # es) l" unfolding e ranked_def by simp
    qed
    with IH show ?thesis by simp
  qed
qed

lemma relax_while_result:
  assumes "relax_while hs l = Some res"
  shows "\<forall>r. res = Inr r \<longrightarrow> map fst r = map fst l \<and> (nonneg l \<longrightarrow> nonneg r) \<and> ranked hs r"
proof (rule relax_while.raw_induct [OF _ assms], goal_cases)
  case (1 f hs l res)
  note rec = "1"(1) and body = "1"(2)
  show ?case
  proof (intro allI impI)
    fix r assume res: "res = Inr r"
    from body res obtain l' c where
      f: "relax_for hs l False = Inr (l', c)"
      by (cases "relax_for hs l False") auto
    note R = relax_for_result [OF f]
    show "map fst r = map fst l \<and> (nonneg l \<longrightarrow> nonneg r) \<and> ranked hs r"
    proof (cases c)
      case True
      with body f res have "f hs l' = Some (Inr r)" by simp
      from rec [OF this]
      have "map fst r = map fst l' \<and> (nonneg l' \<longrightarrow> nonneg r) \<and> ranked hs r" by simp
      with R show ?thesis by simp
    next
      case False
      with body f res have "r = l'" by simp
      with R False show ?thesis by simp
    qed
  qed
qed

section \<open>The rank groups\<close>

text \<open>\<open>listed g e k\<close>: the dict \<open>g\<close> of rank groups lists the element \<open>e\<close> under the rank \<open>k\<close>.\<close>

definition listed :: "(int, 'a list) dict \<Rightarrow> 'a \<Rightarrow> int \<Rightarrow> bool" where
  "listed g e k = (\<exists>xs. map_of g k = Some xs \<and> e \<in> set xs)"

lemma listed_step:
  "listed (AList.map_entry k0 (\<lambda>xs. xs @ [e0])
            (if map_of g k0 = None then AList.update k0 [] g else g)) e k \<longleftrightarrow>
   listed g e k \<or> (e = e0 \<and> k = k0)"
proof (cases "map_of g k0")
  case None
  then show ?thesis
    unfolding listed_def by (auto simp: map_of_map_entry update_conv')
next
  case (Some ys)
  then show ?thesis
    unfolding listed_def by (auto simp: map_of_map_entry)
qed

lemma listed_group_for:
  "listed (group_for items g) e k \<longleftrightarrow> listed g e k \<or> (e, k) \<in> set items"
proof (induction items arbitrary: g)
  case Nil
  show ?case by simp
next
  case (Cons it items)
  obtain e0 k0 where it: "it = (e0, k0)" by (cases it)
  show ?case unfolding it group_for.simps Let_def Cons.IH listed_step by auto
qed

lemma listed_empty: "\<not> listed [] e k"
  by (simp add: listed_def)

lemma map_of_dict_from_keys:
  "map_of (dict_from_keys (ks :: 'k list) (v :: 'v)) k = (if k \<in> set ks then Some v else None)"
proof -
  have "map_of (foldl (\<lambda>d k. AList.update k v d) d0 ks) k =
        (if k \<in> set ks then Some v else map_of d0 k)" for d0 :: "('k \<times> 'v) list"
    by (induction ks arbitrary: d0) (auto simp: update_conv')
  from this [of "[]"] show ?thesis by (simp add: dict_from_keys_def)
qed

lemma poset_init_SomeD:
  assumes "poset_init frames elems rel = Some (Inr p)"
  shows "\<exists>r. check_for_cycles frames elems (build_hasse_diagram rel) = Inr False \<and>
             relax_while (build_hasse_diagram rel) (dict_from_keys elems 0) = Some (Inr r) \<and>
             p = \<lparr>elements = elems, relations = rel,
                  hasse_relations = build_hasse_diagram rel, levels = group_for r []\<rparr>"
  using assms unfolding poset_init_def assign_levels_def Let_def
  by (auto split: sum.splits bool.splits option.splits)

lemma listed_levels:
  assumes "poset_init frames elems rel = Some (Inr p)"
  shows "\<exists>r. (\<forall>e k. listed (levels p) e k \<longleftrightarrow> map_of r e = Some k) \<and>
             fst ` set r = set (elements p) \<and> nonneg r \<and> ranked (hasse_relations p) r"
proof -
  let ?hs = "build_hasse_diagram rel"
  let ?d0 = "dict_from_keys elems (0::int)"
  from poset_init_SomeD [OF assms] obtain r where
    w: "relax_while ?hs ?d0 = Some (Inr r)" and
    p: "p = \<lparr>elements = elems, relations = rel, hasse_relations = ?hs, levels = group_for r []\<rparr>"
    by blast
  have n0: "nonneg ?d0" unfolding nonneg_def map_of_dict_from_keys by (auto split: if_splits)
  from relax_while_result [OF w] n0 have
    k: "map fst r = map fst ?d0" and n: "nonneg r" and rk: "ranked ?hs r" by auto
  from k have d: "distinct (map fst r)" by (simp add: dict_from_keys_keys)
  from k have "fst ` set r = fst ` set ?d0" by (metis set_map)
  then have s: "fst ` set r = set elems" by (simp add: dict_from_keys_keys)
  have "listed (levels p) e k \<longleftrightarrow> map_of r e = Some k" for e k
    unfolding p using d by (simp add: listed_group_for listed_empty)
  with s n rk show ?thesis unfolding p by auto
qed

text \<open>
  Claim C5.  In every constructed object, whatever room the interpreter left for the
  recursion of \<open>dfs\<close>, each element is listed under exactly one rank,
  the ranks are non-negative, and along every covering edge \<open>(a, b)\<close> the rank of \<open>b\<close> is
  strictly greater than the rank of \<open>a\<close>.
\<close>

theorem ranks_strict_on_covering_edges:
  assumes "poset_init frames elems rel = Some (Inr p)"
  shows "(\<forall>e \<in> set (elements p). \<exists>!k. listed (levels p) e k) \<and>
         (\<forall>e k. listed (levels p) e k \<longrightarrow> 0 \<le> k \<and> e \<in> set (elements p)) \<and>
         (\<forall>(a, b) \<in> set (hasse_relations p).
            \<exists>i j. listed (levels p) a i \<and> listed (levels p) b j \<and> i < j)"
proof -
  from listed_levels [OF assms] obtain r where
    l: "\<And>e k. listed (levels p) e k \<longleftrightarrow> map_of r e = Some k" and
    s: "fst ` set r = set (elements p)" and n: "nonneg r" and rk: "ranked (hasse_relations p) r"
    by blast
  have a: "\<forall>e \<in> set (elements p). \<exists>!k. listed (levels p) e k"
  proof
    fix e assume "e \<in> set (elements p)"
    with s have "e \<in> fst ` set r" by simp
    then obtain k where "map_of r e = Some k" using map_of_in_keys by metis
    then show "\<exists>!k. listed (levels p) e k" unfolding l by auto
  qed
  have b: "\<forall>e k. listed (levels p) e k \<longrightarrow> 0 \<le> k \<and> e \<in> set (elements p)"
  proof (intro allI impI)
    fix e k assume "listed (levels p) e k"
    then have m: "map_of r e = Some k" unfolding l .
    then have "e \<in> fst ` set r" by (metis map_of_eq_None_iff option.distinct(1))
    with m n s show "0 \<le> k \<and> e \<in> set (elements p)" unfolding nonneg_def by blast
  qed
  have c: "\<forall>(a, b) \<in> set (hasse_relations p).
            \<exists>i j. listed (levels p) a i \<and> listed (levels p) b j \<and> i < j"
    using rk unfolding ranked_def l .
  from a b c show ?thesis by blast
qed

theorem ranks_strict_on_covering_edges_witness:
  "poset_init 1000 [1::int, 2, 3, 4, 5, 6, 7, 8, 9]
     [(1, 2), (1, 3), (1, 6), (2, 4), (3, 4), (5, 1), (6, 4), (1, 7), (4, 8), (4, 9), (1, 4)] =
   Some (Inr \<lparr>elements = [1, 2, 3, 4, 5, 6, 7, 8, 9],
      relations = [(1, 2), (1, 3), (1, 6), (2, 4), (3, 4), (5, 1), (6, 4), (1, 7), (4, 8), (4, 9), (1, 4)],
      hasse_relations = [(1, 2), (1, 3), (1, 6), (2, 4), (3, 4), (5, 1), (6, 4), (1, 7), (4, 8), (4, 9)],
      levels = [(1, [1]), (2, [2, 3, 6, 7]), (3, [4]), (0, [5]), (4, [8, 9])]\<rparr>) \<and>
   (\<exists>!k. listed [(1, [1::int]), (2, [2, 3, 6, 7]), (3, [4]), (0, [5]), (4, [8, 9])] 4 k) \<and>
   listed [(1, [1::int]), (2, [2, 3, 6, 7]), (3, [4]), (0, [5]), (4, [8, 9])] 4 3 \<and>
   (\<exists>i j. listed [(1, [1::int]), (2, [2, 3, 6, 7]), (3, [4]), (0, [5]), (4, [8, 9])] 5 i \<and>
          listed [(1, [1::int]), (2, [2, 3, 6, 7]), (3, [4]), (0, [5]), (4, [8, 9])] 1 j \<and> i < j)"
proof -
  let ?p = "\<lparr>elements = [1::int, 2, 3, 4, 5, 6, 7, 8, 9],
      relations = [(1, 2), (1, 3), (1, 6), (2, 4), (3, 4), (5, 1), (6, 4), (1, 7), (4, 8), (4, 9), (1, 4)],
      hasse_relations = [(1, 2), (1, 3), (1, 6), (2, 4), (3, 4), (5, 1), (6, 4), (1, 7), (4, 8), (4, 9)],
      levels = [(1, [1]), (2, [2, 3, 6, 7]), (3, [4]), (0, [5]), (4, [8, 9])]\<rparr>"
  have i: "poset_init 1000 [1::int, 2, 3, 4, 5, 6, 7, 8, 9]
     [(1, 2), (1, 3), (1, 6), (2, 4), (3, 4), (5, 1), (6, 4), (1, 7), (4, 8), (4, 9), (1, 4)] =
     Some (Inr ?p)" by code_simp
  note t = ranks_strict_on_covering_edges [OF i]
  from t have u: "\<exists>!k. listed (levels ?p) 4 k" by simp
  from t have e: "\<exists>i j. listed (levels ?p) 5 i \<and> listed (levels ?p) 1 j \<and> i < j" by simp
  have l: "listed (levels ?p) 4 3" by (simp add: listed_def)
  from i u e l show ?thesis by simp
qed

text \<open>
  Claim C6.  On an acyclic covering-edge list the \<open>while\<close> loop of \<open>assign_levels\<close>
  terminates, and it stops within \<open>max 1 n\<close> passes over the covering-edge list, \<open>n\<close> being
  the number of elements: the loop cut off after that many passes already returns the
  result of the loop.  (With no elements the loop still makes its one pass.)
\<close>

theorem relax_while_terminates_acyclic:
  assumes "acyclic (set hs)"
  shows "\<exists>r. relax_passes (max 1 (card (set elems))) hs (dict_from_keys elems 0) = Some r \<and>
             relax_while hs (dict_from_keys elems 0) = Some r \<and>
             assign_levels elems hs \<noteq> None"
proof -
  from relax_terminates [OF assms, of elems] obtain r where
    r: "relax_passes (max 1 (card (set elems))) hs (dict_from_keys elems 0) = Some r"
       "relax_while hs (dict_from_keys elems 0) = Some r" by blast
  then have "assign_levels elems hs \<noteq> None"
    unfolding assign_levels_def by (simp split: sum.splits)
  with r show ?thesis by blast
qed

text \<open>
  The bound is reached: on the chain \<open>1 \<rightarrow> 2 \<rightarrow> 3\<close> with the edges listed against the order,
  two passes are not enough and the third one stops the loop.
\<close>

theorem relax_while_terminates_acyclic_witness:
  "acyclic (set [(2::int, 3::int), (1, 2)]) \<and>
   relax_passes 2 [(2::int, 3), (1, 2)] (dict_from_keys [1, 2, 3] 0) = None \<and>
   relax_passes 3 [(2::int, 3), (1, 2)] (dict_from_keys [1, 2, 3] 0) = Some (Inr [(1, 0), (2, 1), (3, 2)]) \<and>
   relax_while [(2::int, 3), (1, 2)] (dict_from_keys [1, 2, 3] 0) = Some (Inr [(1, 0), (2, 1), (3, 2)])"
proof -
  have a: "acyclic (set [(2::int, 3::int), (1, 2)])"
    by (rule acyclicI_order [where f = "\<lambda>x. - x"]) auto
  have c: "max 1 (card (set [1::int, 2, 3])) = 3" by simp
  have p2: "relax_passes 2 [(2::int, 3), (1, 2)] (dict_from_keys [1, 2, 3] 0) = None"
    by code_simp
  have p3: "relax_passes 3 [(2::int, 3), (1, 2)] (dict_from_keys [1, 2, 3] 0) =
      Some (Inr [(1, 0), (2, 1), (3, 2)])"
    by code_simp
  from relax_while_terminates_acyclic [OF a, of "[1, 2, 3]"] obtain r where
    "relax_passes (max 1 (card (set [1::int, 2, 3]))) [(2, 3), (1, 2)] (dict_from_keys [1, 2, 3] 0) = Some r"
    "relax_while [(2::int, 3), (1, 2)] (dict_from_keys [1, 2, 3] 0) = Some r" by blast
  with p3 have "relax_while [(2::int, 3), (1, 2)] (dict_from_keys [1, 2, 3] 0) =
      Some (Inr [(1, 0), (2, 1), (3, 2)])" unfolding c by simp
  with a p2 p3 show ?thesis by blast
qed

text \<open>
  The bound \<open>|elements|\<close> itself fails on the empty element list: there the loop body still
  runs once, so no number of passes up to \<open>|elements| = 0\<close> lets the loop stop.
\<close>

theorem relax_passes_elements_bound_counterexample:
  "\<not> (\<forall>(hs :: (int \<times> int) list) elems. acyclic (set hs) \<longrightarrow>
        (\<exists>r. relax_passes (card (set elems)) hs (dict_from_keys elems 0) = Some r))"
proof
  assume "\<forall>(hs :: (int \<times> int) list) elems. acyclic (set hs) \<longrightarrow>
        (\<exists>r. relax_passes (card (set elems)) hs (dict_from_keys elems 0) = Some r)"
  then have "acyclic (set ([] :: (int \<times> int) list)) \<longrightarrow>
        (\<exists>r. relax_passes (card (set ([] :: int list))) ([] :: (int \<times> int) list) (dict_from_keys [] 0) = Some r)"
    by blast
  then show False by (simp add: acyclic_def)
qed

lemma relax_passes_empty:
  "relax_passes 1 ([] :: (int \<times> int) list) (dict_from_keys [] 0) = Some (Inr [])"
  by code_simp

section \<open>Correctness of the cycle detection\<close>

text \<open>
  The cycle detection is right as long as the interpreter has room for the recursion: a
  call of \<open>dfs\<close> nests at most as deep as there are unvisited elements.

  \<open>on_flags d\<close> is the set of keys whose flag is \<open>True\<close>: the visited nodes for the dict
  \<open>visited\<close>, the nodes on the recursion stack for \<open>stack\<close>.  The finished nodes are the
  visited ones that are off the stack.
\<close>

definition on_flags :: "'a flags \<Rightarrow> 'a set" where
  "on_flags d = {x. map_of d x = Some True}"

definition keyed :: "('a \<times> 'a) list \<Rightarrow> 'a flags \<Rightarrow> 'a flags \<Rightarrow> bool" where
  "keyed hs vis st = (snd ` set hs \<subseteq> fst ` set vis \<and> snd ` set hs \<subseteq> fst ` set st)"

text \<open>
  The invariant: the stack nodes are visited, the finished nodes are closed under the
  edges, and no finished node lies on a cycle.
\<close>

definition dfs_inv :: "('a \<times> 'a) set \<Rightarrow> 'a set \<Rightarrow> 'a set \<Rightarrow> bool" where
  "dfs_inv E V G = (G \<subseteq> V \<and> (\<forall>x \<in> V - G. \<forall>y. (x, y) \<in> E \<longrightarrow> y \<in> V - G) \<and>
                    (\<forall>x \<in> V - G. (x, x) \<notin> E\<^sup>+))"

lemma on_flags_update_True: "on_flags (AList.update v True d) = insert v (on_flags d)"
  by (auto simp: on_flags_def update_conv')

lemma on_flags_update_False: "on_flags (AList.update v False d) = on_flags d - {v}"
  by (auto simp: on_flags_def update_conv')

lemma keyed_update: "keyed hs vis st \<Longrightarrow> keyed hs (AList.update v x vis) (AList.update w y st)"
  by (auto simp: keyed_def dom_update)

lemma keyed_lookup:
  assumes "keyed hs vis st" "(a, b) \<in> set hs"
  shows "map_of vis b \<noteq> None" "map_of st b \<noteq> None"
proof -
  from assms(2) have "b \<in> snd ` set hs" by force
  with assms(1) have "b \<in> fst ` set vis" "b \<in> fst ` set st" unfolding keyed_def by blast+
  then show "map_of vis b \<noteq> None" "map_of st b \<noteq> None"
    by (simp_all add: map_of_eq_None_iff)
qed

lemma dfs_inv_start:
  assumes i: "dfs_inv E V G" and v: "v \<notin> V"
  shows "dfs_inv E (insert v V) (insert v G)"
proof -
  from i have GV: "G \<subseteq> V" and cl: "\<forall>x \<in> V - G. \<forall>y. (x, y) \<in> E \<longrightarrow> y \<in> V - G"
    and ac: "\<forall>x \<in> V - G. (x, x) \<notin> E\<^sup>+" unfolding dfs_inv_def by blast+
  from GV v have eq: "insert v V - insert v G = V - G" by blast
  from GV have "insert v G \<subseteq> insert v V" by blast
  with cl ac show ?thesis unfolding dfs_inv_def eq by blast
qed

lemma dfs_inv_finish:
  assumes i: "dfs_inv E V (insert v G)" and vG: "v \<notin> G"
    and succ: "\<forall>y. (v, y) \<in> E \<longrightarrow> y \<in> V - insert v G"
  shows "dfs_inv E V G"
proof -
  let ?B = "V - insert v G"
  from i have sub: "insert v G \<subseteq> V" and cl: "\<forall>x \<in> ?B. \<forall>y. (x, y) \<in> E \<longrightarrow> y \<in> ?B"
    and ac: "\<forall>x \<in> ?B. (x, x) \<notin> E\<^sup>+" unfolding dfs_inv_def by blast+
  have B: "V - G = insert v ?B" using sub vG by blast
  have nv: "(v, v) \<notin> E\<^sup>+"
  proof
    assume "(v, v) \<in> E\<^sup>+"
    then obtain y where y: "(v, y) \<in> E" "(y, v) \<in> E\<^sup>*" by (meson tranclD)
    from succ y(1) have "y \<in> ?B" by blast
    from closed_rtrancl [OF y(2) this cl] show False by blast
  qed
  have 1: "G \<subseteq> V" using sub by blast
  have 2: "\<forall>x \<in> insert v ?B. \<forall>y. (x, y) \<in> E \<longrightarrow> y \<in> insert v ?B"
    using cl succ by blast
  have 3: "\<forall>x \<in> insert v ?B. (x, x) \<notin> E\<^sup>+" using ac nv by blast
  from 1 2 3 show ?thesis unfolding dfs_inv_def B by blast
qed

text \<open>What a call of \<open>dfs\<close> and a run of its loop establish.\<close>

definition dfs_post :: "('a \<times> 'a) list \<Rightarrow> 'a \<Rightarrow> 'a flags \<Rightarrow> 'a flags \<Rightarrow>
    error + (bool \<times> 'a flags \<times> 'a flags) \<Rightarrow> bool" where
  "dfs_post hs v vis st res =
     (case res of
        Inl e \<Rightarrow> False
      | Inr (found, vis', st') \<Rightarrow>
          if found then \<not> acyclic (set hs)
          else keyed hs vis' st' \<and> dfs_inv (set hs) (on_flags vis') (on_flags st') \<and>
               on_flags vis \<subseteq> on_flags vis' \<and> v \<in> on_flags vis' \<and>
               on_flags st' = on_flags st)"

definition dfs_for_post :: "('a \<times> 'a) list \<Rightarrow> ('a \<times> 'a) list \<Rightarrow> 'a \<Rightarrow> 'a flags \<Rightarrow> 'a flags \<Rightarrow>
    error + (bool \<times> 'a flags \<times> 'a flags) \<Rightarrow> bool" where
  "dfs_for_post hs es v vis st res =
     (case res of
        Inl e \<Rightarrow> False
      | Inr (found, vis', st') \<Rightarrow>
          if found then \<not> acyclic (set hs)
          else keyed hs vis' st' \<and> dfs_inv (set hs) (on_flags vis') (on_flags st') \<and>
               on_flags vis \<subseteq> on_flags vis' \<and> on_flags st' = on_flags st \<and>
               (\<forall>y. (v, y) \<in> set es \<longrightarrow> y \<in> on_flags vis' - on_flags st'))"

lemma dfs_for_post_Cons:
  assumes p: "dfs_for_post hs es v vis1 st1 r"
    and m: "on_flags vis \<subseteq> on_flags vis1" and g: "on_flags st1 = on_flags st"
    and b: "a = v \<Longrightarrow> b \<in> on_flags vis1 - on_flags st1"
  shows "dfs_for_post hs ((a, b) # es) v vis st r"
proof (cases r)
  case (Inl e)
  with p show ?thesis by (simp add: dfs_for_post_def)
next
  case (Inr res)
  obtain found vis' st' where res: "res = (found, vis', st')" by (cases res)
  show ?thesis
  proof (cases found)
    case True
    then have f: "found = True" by simp
    from p show ?thesis unfolding Inr res f dfs_for_post_def sum.case prod.case if_True .
  next
    case False
    then have f: "found = False" by simp
    note all = p [unfolded Inr res f dfs_for_post_def sum.case prod.case if_False]
    then have k: "keyed hs vis' st'" and i: "dfs_inv (set hs) (on_flags vis') (on_flags st')"
      and m1: "on_flags vis1 \<subseteq> on_flags vis'" and g1: "on_flags st' = on_flags st1"
      and s: "\<forall>y. (v, y) \<in> set es \<longrightarrow> y \<in> on_flags vis' - on_flags st'" by blast+
    from m m1 have m': "on_flags vis \<subseteq> on_flags vis'" by blast
    from g g1 have g': "on_flags st' = on_flags st" by simp
    have s': "\<forall>y. (v, y) \<in> set ((a, b) # es) \<longrightarrow> y \<in> on_flags vis' - on_flags st'"
    proof (intro allI impI)
      fix y assume "(v, y) \<in> set ((a, b) # es)"
      then have "(a = v \<and> y = b) \<or> (v, y) \<in> set es" by auto
      then show "y \<in> on_flags vis' - on_flags st'"
      proof
        assume "a = v \<and> y = b"
        with b have "y \<in> on_flags vis1 - on_flags st1" by blast
        with m1 g1 show ?thesis by blast
      next
        assume "(v, y) \<in> set es"
        with s show ?thesis by blast
      qed
    qed
    from k i m' g' s' show ?thesis
      unfolding Inr res f dfs_for_post_def sum.case prod.case if_False by (intro conjI)
  qed
qed

lemma dfs_correct:
  "keyed hs vis st \<Longrightarrow> dfs_inv (set hs) (on_flags vis) (on_flags st) \<Longrightarrow>
   v \<notin> on_flags vis \<Longrightarrow> \<forall>g \<in> on_flags st. (g, v) \<in> (set hs)\<^sup>+ \<Longrightarrow>
   finite X \<Longrightarrow> snd ` set hs \<subseteq> X \<Longrightarrow> v \<in> X \<Longrightarrow> card (X - on_flags vis) \<le> frames \<Longrightarrow>
   dfs_post hs v vis st (dfs frames hs v vis st)"
  "set es \<subseteq> set hs \<Longrightarrow> keyed hs vis st \<Longrightarrow>
   dfs_inv (set hs) (on_flags vis) (on_flags st) \<Longrightarrow>
   v \<in> on_flags st \<Longrightarrow> \<forall>g \<in> on_flags st. (g, v) \<in> (set hs)\<^sup>* \<Longrightarrow>
   finite X \<Longrightarrow> snd ` set hs \<subseteq> X \<Longrightarrow> card (X - on_flags vis) \<le> frames \<Longrightarrow>
   dfs_for_post hs es v vis st (dfs_for frames hs es v vis st)"
proof (induction frames hs v vis st and frames hs es v vis st rule: dfs_dfs_for.induct)
  case (1 frames hs v visited stack)
  note fin = "1.prems"(5) and tg = "1.prems"(6) and vX = "1.prems"(7) and room = "1.prems"(8)
  let ?E = "set hs"
  let ?vis1 = "AList.update v True visited" and ?st1 = "AList.update v True stack"
  let ?V = "on_flags visited" and ?G = "on_flags stack"
  from "1.prems"(2) have GV: "?G \<subseteq> ?V" by (simp add: dfs_inv_def)
  with "1.prems"(3) have vG: "v \<notin> ?G" by blast
  have k1: "keyed hs ?vis1 ?st1" using "1.prems"(1) by (rule keyed_update)
  have i1: "dfs_inv ?E (on_flags ?vis1) (on_flags ?st1)"
    unfolding on_flags_update_True using "1.prems"(2,3) by (rule dfs_inv_start)
  have g1: "v \<in> on_flags ?st1" by (simp add: on_flags_update_True)
  have r1: "\<forall>g \<in> on_flags ?st1. (g, v) \<in> ?E\<^sup>*"
    unfolding on_flags_update_True using "1.prems"(4) by auto
  have vW: "v \<in> X - ?V" using vX "1.prems"(3) by blast
  then have "X - ?V \<noteq> {}" by blast
  then have "card (X - ?V) \<noteq> 0" using fin by simp
  with room have fr0: "frames \<noteq> 0" by linarith
  have eq1: "X - on_flags ?vis1 = (X - ?V) - {v}" unfolding on_flags_update_True by blast
  have "card ((X - ?V) - {v}) = card (X - ?V) - 1" using vW by (rule card_Diff_singleton)
  with room have room1: "card (X - on_flags ?vis1) \<le> frames - 1" unfolding eq1 by linarith
  have fp: "dfs_for_post hs hs v ?vis1 ?st1 (dfs_for (frames - 1) hs hs v ?vis1 ?st1)"
    by (rule "1.IH" [OF fr0 subset_refl k1 i1 g1 r1 fin tg room1])
  have unf: "dfs frames hs v visited stack =
     (case dfs_for (frames - 1) hs hs v ?vis1 ?st1 of
        Inl e \<Rightarrow> Inl e
      | Inr (True, visited', stack') \<Rightarrow> Inr (True, visited', stack')
      | Inr (False, visited', stack') \<Rightarrow> Inr (False, visited', AList.update v False stack'))"
    by (subst dfs.simps) (simp add: fr0)
  show ?case
  proof (cases "dfs_for (frames - 1) hs hs v ?vis1 ?st1")
    case (Inl e)
    with fp show ?thesis by (simp add: dfs_for_post_def)
  next
    case (Inr res)
    obtain found vis' st' where res: "res = (found, vis', st')" by (cases res)
    show ?thesis
    proof (cases found)
      case True
      with fp Inr res show ?thesis unfolding unf by (simp add: dfs_for_post_def dfs_post_def)
    next
      case False
      from False have nf: "found = False" by simp
      note all = fp [unfolded Inr res nf dfs_for_post_def sum.case prod.case if_False]
      then have k: "keyed hs vis' st'" and m: "insert v ?V \<subseteq> on_flags vis'"
        and g: "on_flags st' = insert v ?G" unfolding on_flags_update_True by blast+
      from all have i: "dfs_inv ?E (on_flags vis') (insert v ?G)"
        and s: "\<forall>y. (v, y) \<in> ?E \<longrightarrow> y \<in> on_flags vis' - insert v ?G"
        unfolding g by blast+
      have d: "dfs frames hs v visited stack = Inr (False, vis', AList.update v False st')"
        unfolding unf using Inr res False by simp
      have k': "keyed hs vis' (AList.update v False st')"
        using k by (auto simp: keyed_def dom_update)
      have g': "on_flags (AList.update v False st') = ?G"
        unfolding on_flags_update_False g using vG by auto
      have i': "dfs_inv ?E (on_flags vis') ?G"
        using i vG s by (rule dfs_inv_finish)
      from m have "?V \<subseteq> on_flags vis'" "v \<in> on_flags vis'" by blast+
      with k' g' i' show ?thesis unfolding d dfs_post_def sum.case prod.case if_False
        by simp
    qed
  qed
next
  case (2 frames hs v visited stack)
  then show ?case by (simp add: dfs_for_post_def)
next
  case (3 frames hs a b es v visited stack)
  let ?E = "set hs"
  let ?V = "on_flags visited" and ?G = "on_flags stack"
  note k = "3.prems"(2) and i = "3.prems"(3) and vG = "3.prems"(4) and r = "3.prems"(5)
  note fin = "3.prems"(6) and tg = "3.prems"(7) and room = "3.prems"(8)
  from "3.prems"(1) have ab: "(a, b) \<in> ?E" and es: "set es \<subseteq> ?E" by auto
  from i have GV: "?G \<subseteq> ?V" by (simp add: dfs_inv_def)
  show ?case
  proof (cases "a = v")
    case False
    have fp: "dfs_for_post hs es v visited stack (dfs_for frames hs es v visited stack)"
      by (rule "3.IH"(4) [OF False es k i vG r fin tg room])
    have e: "dfs_for frames hs ((a, b) # es) v visited stack = dfs_for frames hs es v visited stack"
      using False by simp
    show ?thesis unfolding e
      by (rule dfs_for_post_Cons [OF fp subset_refl refl]) (use False in simp)
  next
    case av: True
    from keyed_lookup [OF k ab] obtain vb sb where
      vb: "map_of visited b = Some vb" and sb: "map_of stack b = Some sb" by auto
    show ?thesis
    proof (cases vb)
      case True
      then have vbT: "vb = True" by simp
      show ?thesis
      proof (cases sb)
        case True
        then have "b \<in> ?G" using sb by (simp add: on_flags_def)
        with r have "(b, v) \<in> ?E\<^sup>*" by blast
        moreover have "(v, b) \<in> ?E" using ab av by simp
        ultimately have "(b, b) \<in> ?E\<^sup>+" by (rule rtrancl_into_trancl1)
        then have "\<not> acyclic ?E" by (auto simp: acyclic_def)
        moreover have "dfs_for frames hs ((a, b) # es) v visited stack = Inr (True, visited, stack)"
          using av vb vbT sb True by simp
        ultimately show ?thesis by (simp add: dfs_for_post_def)
      next
        case False
        then have sbF: "sb = False" by simp
        have fp: "dfs_for_post hs es v visited stack (dfs_for frames hs es v visited stack)"
          by (rule "3.IH"(1) [OF av vb vbT sb sbF es k i vG r fin tg room])
        have e: "dfs_for frames hs ((a, b) # es) v visited stack = dfs_for frames hs es v visited stack"
          using av vb vbT sb sbF by simp
        have bB: "b \<in> ?V - ?G" using vb vbT sb sbF by (simp add: on_flags_def)
        show ?thesis unfolding e
          by (rule dfs_for_post_Cons [OF fp subset_refl refl]) (rule bB)
      qed
    next
      case False
      then have vbF: "vb = False" by simp
      have bV: "b \<notin> ?V" using vb vbF by (simp add: on_flags_def)
      with GV have bG: "b \<notin> ?G" by blast
      have bX: "b \<in> X" using ab tg by force
      have rb: "\<forall>g \<in> ?G. (g, b) \<in> ?E\<^sup>+"
      proof
        fix g assume "g \<in> ?G"
        with r have "(g, v) \<in> ?E\<^sup>*" by blast
        moreover have "(v, b) \<in> ?E" using ab av by simp
        ultimately show "(g, b) \<in> ?E\<^sup>+" by (rule rtrancl_into_trancl1)
      qed
      have dp: "dfs_post hs b visited stack (dfs frames hs b visited stack)"
        by (rule "3.IH"(2) [OF av vb vbF k i bV rb fin tg bX room])
      show ?thesis
      proof (cases "dfs frames hs b visited stack")
        case (Inl e)
        with dp show ?thesis by (simp add: dfs_post_def)
      next
        case (Inr resb)
        obtain fb visb stb where resb: "resb = (fb, visb, stb)" by (cases resb)
        show ?thesis
        proof (cases fb)
          case True
          with dp Inr resb have "\<not> acyclic ?E" by (simp add: dfs_post_def)
          moreover have "dfs_for frames hs ((a, b) # es) v visited stack = Inr (True, visb, stb)"
            using av vb vbF Inr resb True by simp
          ultimately show ?thesis by (simp add: dfs_for_post_def)
        next
          case False
          then have fbF: "fb = False" by simp
          note allb = dp [unfolded Inr resb fbF dfs_post_def sum.case prod.case if_False]
          then have
            kb: "keyed hs visb stb" and
            ib: "dfs_inv ?E (on_flags visb) (on_flags stb)" and
            mb: "?V \<subseteq> on_flags visb" and bb: "b \<in> on_flags visb" and
            gb: "on_flags stb = ?G"
            by blast+
          have vGb: "v \<in> on_flags stb" using vG gb by simp
          have "X - on_flags visb \<subseteq> X - ?V" using mb by blast
          then have "card (X - on_flags visb) \<le> card (X - ?V)" using fin by (intro card_mono) auto
          with room have roomb: "card (X - on_flags visb) \<le> frames" by simp
          have rGb: "\<forall>g \<in> on_flags stb. (g, v) \<in> ?E\<^sup>*" using r gb by simp
          have fp: "dfs_for_post hs es v visb stb (dfs_for frames hs es v visb stb)"
            by (rule "3.IH"(3) [OF av vb vbF Inr resb [symmetric] fbF refl es kb ib vGb rGb fin tg roomb])
          have e: "dfs_for frames hs ((a, b) # es) v visited stack = dfs_for frames hs es v visb stb"
            using av vb vbF Inr resb fbF by simp
          have bb': "b \<in> on_flags visb - on_flags stb" using bb gb bG by blast
          show ?thesis unfolding e
            by (rule dfs_for_post_Cons [OF fp mb gb]) (rule bb')
        qed
      qed
    qed
  qed
qed

lemma dfs_keys:
  "\<forall>f vis' st'. dfs frames hs v vis st = Inr (f, vis', st') \<longrightarrow> fst ` set vis \<subseteq> fst ` set vis'"
  "\<forall>f vis' st'. dfs_for frames hs es v vis st = Inr (f, vis', st') \<longrightarrow> fst ` set vis \<subseteq> fst ` set vis'"
proof (induction frames hs v vis st and frames hs es v vis st rule: dfs_dfs_for.induct)
  case (1 frames hs v visited stack)
  show ?case
  proof (intro allI impI)
    fix f vis' st'
    assume d: "dfs frames hs v visited stack = Inr (f, vis', st')"
    then have fr0: "frames \<noteq> 0" by (subst (asm) dfs.simps) (auto split: if_splits)
    from d fr0 obtain st'' where
      "dfs_for (frames - 1) hs hs v (AList.update v True visited) (AList.update v True stack) =
         Inr (f, vis', st'')"
      by (subst (asm) dfs.simps) (auto split: sum.splits bool.splits)
    with "1.IH" [OF fr0] have "fst ` set (AList.update v True visited) \<subseteq> fst ` set vis'" by blast
    then show "fst ` set visited \<subseteq> fst ` set vis'" unfolding dom_update by blast
  qed
next
  case (2 frames hs v visited stack)
  show ?case by simp
next
  case (3 frames hs a b es v visited stack)
  show ?case
  proof (intro allI impI)
    fix f vis' st'
    assume d: "dfs_for frames hs ((a, b) # es) v visited stack = Inr (f, vis', st')"
    show "fst ` set visited \<subseteq> fst ` set vis'"
    proof (cases "a = v")
      case False
      with d have "dfs_for frames hs es v visited stack = Inr (f, vis', st')" by simp
      with "3.IH"(4) [OF False] show ?thesis by blast
    next
      case av: True
      from d av obtain vb where vb: "map_of visited b = Some vb"
        by (cases "map_of visited b") auto
      show ?thesis
      proof (cases vb)
        case True
        then have vbT: "vb = True" by simp
        from d av vb vbT obtain sb where sb: "map_of stack b = Some sb"
          by (cases "map_of stack b") auto
        show ?thesis
        proof (cases sb)
          case True
          with d av vb vbT sb show ?thesis by simp
        next
          case False
          then have sbF: "sb = False" by simp
          with d av vb vbT sb have "dfs_for frames hs es v visited stack = Inr (f, vis', st')" by simp
          with "3.IH"(1) [OF av vb vbT sb sbF] show ?thesis by blast
        qed
      next
        case False
        then have vbF: "vb = False" by simp
        from d av vb vbF obtain resb where rb: "dfs frames hs b visited stack = Inr resb"
          by (cases "dfs frames hs b visited stack") auto
        obtain fb visb stb where resb: "resb = (fb, visb, stb)" by (cases resb)
        from "3.IH"(2) [OF av vb vbF] rb resb have m1: "fst ` set visited \<subseteq> fst ` set visb"
          by blast
        show ?thesis
        proof (cases fb)
          case True
          with d av vb vbF rb resb have "vis' = visb" by simp
          with m1 show ?thesis by simp
        next
          case False
          then have fbF: "fb = False" by simp
          with d av vb vbF rb resb have "dfs_for frames hs es v visb stb = Inr (f, vis', st')" by simp
          with "3.IH"(3) [OF av vb vbF rb resb [symmetric] fbF refl]
          have "fst ` set visb \<subseteq> fst ` set vis'" by blast
          with m1 show ?thesis by blast
        qed
      qed
    qed
  qed
qed

definition check_post :: "('a \<times> 'a) list \<Rightarrow> 'a list \<Rightarrow> error + bool \<Rightarrow> bool" where
  "check_post hs elems res =
     (case res of
        Inl e \<Rightarrow> False
      | Inr found \<Rightarrow>
          if found then \<not> acyclic (set hs)
          else \<exists>B. set elems \<subseteq> B \<and> (\<forall>x \<in> B. (x, x) \<notin> (set hs)\<^sup>+))"

lemma check_post_Cons:
  assumes p: "check_post hs elems r" and e: "(e, e) \<notin> (set hs)\<^sup>+"
  shows "check_post hs (e # elems) r"
proof (cases r)
  case (Inl x)
  with p show ?thesis by (simp add: check_post_def)
next
  case (Inr found)
  show ?thesis
  proof (cases found)
    case True
    with p Inr show ?thesis by (simp add: check_post_def)
  next
    case False
    with p Inr obtain B where B: "set elems \<subseteq> B" "\<forall>x \<in> B. (x, x) \<notin> (set hs)\<^sup>+"
      by (auto simp: check_post_def)
    with e have "set (e # elems) \<subseteq> insert e B \<and> (\<forall>x \<in> insert e B. (x, x) \<notin> (set hs)\<^sup>+)"
      by auto
    then have "\<exists>B. set (e # elems) \<subseteq> B \<and> (\<forall>x \<in> B. (x, x) \<notin> (set hs)\<^sup>+)" by blast
    with Inr False show ?thesis by (simp add: check_post_def)
  qed
qed

lemma check_for_correct:
  "keyed hs vis st \<Longrightarrow> dfs_inv (set hs) (on_flags vis) {} \<Longrightarrow> on_flags st = {} \<Longrightarrow>
   set elems \<subseteq> fst ` set vis \<Longrightarrow>
   finite X \<Longrightarrow> snd ` set hs \<subseteq> X \<Longrightarrow> set elems \<subseteq> X \<Longrightarrow> card (X - on_flags vis) \<le> frames \<Longrightarrow>
   check_post hs elems (check_for frames hs elems vis st)"
proof (induction elems arbitrary: vis st)
  case Nil
  have "\<exists>B :: 'a set. \<forall>x \<in> B. (x, x) \<notin> (set hs)\<^sup>+" by (rule exI [of _ "{}"]) simp
  then show ?case by (simp add: check_post_def)
next
  case (Cons e elems)
  let ?E = "set hs"
  from Cons.prems(4) have ek: "e \<in> fst ` set vis" and rest: "set elems \<subseteq> fst ` set vis" by auto
  note fin = Cons.prems(5) and tg = Cons.prems(6) and room = Cons.prems(8)
  from Cons.prems(7) have eX: "e \<in> X" and restX: "set elems \<subseteq> X" by auto
  from ek obtain ve where ve: "map_of vis e = Some ve" using map_of_in_keys by metis
  show ?case
  proof (cases ve)
    case True
    then have veT: "ve = True" by simp
    have c: "check_for frames hs (e # elems) vis st = check_for frames hs elems vis st"
      using ve veT by simp
    have eV: "e \<in> on_flags vis" using ve veT by (simp add: on_flags_def)
    from Cons.prems(2) eV have ee: "(e, e) \<notin> ?E\<^sup>+" unfolding dfs_inv_def by blast
    note IH = Cons.IH [OF Cons.prems(1,2,3) rest fin tg restX room]
    show ?thesis unfolding c using IH ee by (rule check_post_Cons)
  next
    case False
    then have veF: "ve = False" by simp
    have eV: "e \<notin> on_flags vis" using ve veF by (simp add: on_flags_def)
    have i: "dfs_inv ?E (on_flags vis) (on_flags st)" using Cons.prems(2,3) by simp
    have r: "\<forall>g \<in> on_flags st. (g, e) \<in> ?E\<^sup>+" using Cons.prems(3) by simp
    have dp: "dfs_post hs e vis st (dfs frames hs e vis st)"
      by (rule dfs_correct(1) [OF Cons.prems(1) i eV r fin tg eX room])
    show ?thesis
    proof (cases "dfs frames hs e vis st")
      case (Inl x)
      with dp show ?thesis by (simp add: dfs_post_def)
    next
      case (Inr res)
      obtain fd vis' st' where res: "res = (fd, vis', st')" by (cases res)
      show ?thesis
      proof (cases fd)
        case True
        with dp Inr res have "\<not> acyclic ?E" by (simp add: dfs_post_def)
        moreover have "check_for frames hs (e # elems) vis st = Inr True"
          using ve veF Inr res True by simp
        ultimately show ?thesis by (simp add: check_post_def)
      next
        case False
        then have fdF: "fd = False" by simp
        note all = dp [unfolded Inr res fdF dfs_post_def sum.case prod.case if_False]
        then have k': "keyed hs vis' st'" and i': "dfs_inv ?E (on_flags vis') (on_flags st')"
          and e': "e \<in> on_flags vis'" and g': "on_flags st' = on_flags st" by blast+
        from g' Cons.prems(3) have g0: "on_flags st' = {}" by simp
        from i' g0 have i0: "dfs_inv ?E (on_flags vis') {}" by simp
        from dfs_keys(1) [of frames hs e vis st] Inr res have ks: "fst ` set vis \<subseteq> fst ` set vis'"
          by blast
        from all have "on_flags vis \<subseteq> on_flags vis'" by blast
        then have "X - on_flags vis' \<subseteq> X - on_flags vis" by blast
        then have "card (X - on_flags vis') \<le> card (X - on_flags vis)" using fin by (intro card_mono) auto
        with room have room': "card (X - on_flags vis') \<le> frames" by simp
        from ks rest have rest': "set elems \<subseteq> fst ` set vis'" by blast
        have c: "check_for frames hs (e # elems) vis st = check_for frames hs elems vis' st'"
          using ve veF Inr res fdF by simp
        from i0 e' have ee: "(e, e) \<notin> ?E\<^sup>+" unfolding dfs_inv_def by blast
        note IH = Cons.IH [OF k' i0 g0 rest' fin tg restX room']
        show ?thesis unfolding c using IH ee by (rule check_post_Cons)
      qed
    qed
  qed
qed

lemma on_flags_dict_from_keys: "on_flags (dict_from_keys elems False) = {}"
  by (simp add: on_flags_def map_of_dict_from_keys)

lemma check_for_cycles_correct:
  assumes "endpoints hs \<subseteq> set elems" and fr: "card (set elems) \<le> frames"
  shows "check_for_cycles frames elems hs = Inr (\<not> acyclic (set hs))"
proof -
  let ?d = "dict_from_keys elems False"
  have k: "keyed hs ?d ?d"
    using assms(1) by (auto simp: keyed_def endpoints_def dict_from_keys_keys)
  have tg: "snd ` set hs \<subseteq> set elems" using assms(1) by (auto simp: endpoints_def)
  have room: "card (set elems - on_flags ?d) \<le> frames"
    using fr by (simp add: on_flags_dict_from_keys)
  have i: "dfs_inv (set hs) (on_flags ?d) {}"
    by (simp add: dfs_inv_def on_flags_dict_from_keys)
  have e: "set elems \<subseteq> fst ` set ?d" by (simp add: dict_from_keys_keys)
  from check_for_correct [OF k i on_flags_dict_from_keys e finite_set tg subset_refl room]
  have p: "check_post hs elems (check_for_cycles frames elems hs)"
    by (simp add: check_for_cycles_def)
  show ?thesis
  proof (cases "check_for_cycles frames elems hs")
    case (Inl x)
    with p show ?thesis by (simp add: check_post_def)
  next
    case (Inr found)
    show ?thesis
    proof (cases found)
      case True
      with p Inr show ?thesis by (simp add: check_post_def)
    next
      case False
      with p Inr obtain B where B: "set elems \<subseteq> B" "\<forall>x \<in> B. (x, x) \<notin> (set hs)\<^sup>+"
        by (auto simp: check_post_def)
      have "acyclic (set hs)"
        unfolding acyclic_def
      proof (intro allI notI)
        fix x assume x: "(x, x) \<in> (set hs)\<^sup>+"
        then obtain y where "(x, y) \<in> set hs" by (meson tranclD)
        then have "x \<in> endpoints hs" by (force simp: endpoints_def)
        with assms(1) B(1) have "x \<in> B" by blast
        with B(2) x show False by blast
      qed
      with Inr False show ?thesis by simp
    qed
  qed
qed

section \<open>The constructor and the cycle error\<close>




lemma endpoints_build_hasse_diagram:
  "set rel \<subseteq> set elems \<times> set elems \<Longrightarrow> endpoints (build_hasse_diagram rel) \<subseteq> set elems"
  unfolding build_hasse_diagram_filter endpoints_def by force



text \<open>
  Once the interpreter allows as many nested calls of \<open>dfs\<close> as there are elements, the
  result of the constructor no longer depends on how many it allows.
\<close>

lemma poset_init_frames:
  assumes "set rel \<subseteq> set elems \<times> set elems"
    and "card (set elems) \<le> m" and "card (set elems) \<le> n"
  shows "poset_init m elems rel = poset_init n elems rel"
proof -
  from assms(1) have ep: "endpoints (build_hasse_diagram rel) \<subseteq> set elems"
    by (rule endpoints_build_hasse_diagram)
  from check_for_cycles_correct [OF ep assms(2)] check_for_cycles_correct [OF ep assms(3)]
  have "check_for_cycles m elems (build_hasse_diagram rel) =
        check_for_cycles n elems (build_hasse_diagram rel)" by simp
  then show ?thesis by (simp add: poset_init_def)
qed



section \<open>Recursion deeper than the interpreter allows\<close>

















section \<open>Claims settled by running the constructor\<close>

text \<open>
  The three inputs below are small: the constructor is run with exactly as many nested
  calls of \<open>dfs\<close> allowed as there are elements, and by \<open>poset_init_frames\<close> it returns the
  same with any larger number, \<open>n + k\<close>.
\<close>

text \<open>
  Claim C8.  On the elements \<open>1..9\<close> and the eleven relations of the module's example
  the constructor returns an object, and its covering edges are the raw relations without
  \<open>(1, 4)\<close>, which has the two-hop witnesses \<open>(1,2)-(2,4)\<close>, \<open>(1,3)-(3,4)\<close> and
  \<open>(1,6)-(6,4)\<close> in the raw list.
\<close>

theorem scenario_A_constructs:
  "poset_init (9 + k) [1::int, 2, 3, 4, 5, 6, 7, 8, 9]
     [(1, 2), (1, 3), (1, 6), (2, 4), (3, 4), (5, 1), (6, 4), (1, 7), (4, 8), (4, 9), (1, 4)] =
   Some (Inr \<lparr>elements = [1, 2, 3, 4, 5, 6, 7, 8, 9],
      relations = [(1, 2), (1, 3), (1, 6), (2, 4), (3, 4), (5, 1), (6, 4), (1, 7), (4, 8), (4, 9), (1, 4)],
      hasse_relations = [(1, 2), (1, 3), (1, 6), (2, 4), (3, 4), (5, 1), (6, 4), (1, 7), (4, 8), (4, 9)],
      levels = [(1, [1]), (2, [2, 3, 6, 7]), (3, [4]), (0, [5]), (4, [8, 9])]\<rparr>) \<and>
   build_hasse_diagram
     [(1::int, 2), (1, 3), (1, 6), (2, 4), (3, 4), (5, 1), (6, 4), (1, 7), (4, 8), (4, 9), (1, 4)] =
   removeAll (1, 4)
     [(1, 2), (1, 3), (1, 6), (2, 4), (3, 4), (5, 1), (6, 4), (1, 7), (4, 8), (4, 9), (1, 4)]"
proof -
  let ?elems = "[1::int, 2, 3, 4, 5, 6, 7, 8, 9]"
  let ?rel = "[(1::int, 2::int), (1, 3), (1, 6), (2, 4), (3, 4), (5, 1), (6, 4), (1, 7),
               (4, 8), (4, 9), (1, 4)]"
  have s: "set ?rel \<subseteq> set ?elems \<times> set ?elems" by simp
  have c: "card (set ?elems) \<le> 9" by simp
  then have c': "card (set ?elems) \<le> 9 + k" by (rule trans_le_add1)
  have "poset_init 9 ?elems ?rel =
    Some (Inr \<lparr>elements = [1, 2, 3, 4, 5, 6, 7, 8, 9],
      relations = [(1, 2), (1, 3), (1, 6), (2, 4), (3, 4), (5, 1), (6, 4), (1, 7), (4, 8), (4, 9), (1, 4)],
      hasse_relations = [(1, 2), (1, 3), (1, 6), (2, 4), (3, 4), (5, 1), (6, 4), (1, 7), (4, 8), (4, 9)],
      levels = [(1, [1]), (2, [2, 3, 6, 7]), (3, [4]), (0, [5]), (4, [8, 9])]\<rparr>)"
    by code_simp
  then have i: "poset_init (9 + k) ?elems ?rel =
    Some (Inr \<lparr>elements = [1, 2, 3, 4, 5, 6, 7, 8, 9],
      relations = [(1, 2), (1, 3), (1, 6), (2, 4), (3, 4), (5, 1), (6, 4), (1, 7), (4, 8), (4, 9), (1, 4)],
      hasse_relations = [(1, 2), (1, 3), (1, 6), (2, 4), (3, 4), (5, 1), (6, 4), (1, 7), (4, 8), (4, 9)],
      levels = [(1, [1]), (2, [2, 3, 6, 7]), (3, [4]), (0, [5]), (4, [8, 9])]\<rparr>)"
    unfolding poset_init_frames [OF s c' c] .
  have b: "build_hasse_diagram ?rel = removeAll (1, 4) ?rel" by code_simp
  from i b show ?thesis by (rule conjI)
qed

text \<open>
  Claim C9.  Reduction can leave a transitively redundant pair: with the relations
  \<open>(1,2), (2,3), (3,4), (1,4)\<close> there is no \<open>x\<close> with \<open>(1,x)\<close> and \<open>(x,4)\<close> in the raw list, the
  constructor succeeds, and \<open>(1,4)\<close> stays a covering edge next to the three-hop chain
  that implies it.
\<close>

theorem three_hop_shortcut_survives:
  "\<exists>(elems :: int list) rel a b c d p.
     (a, b) \<in> set rel \<and> (b, c) \<in> set rel \<and> (c, d) \<in> set rel \<and> (a, d) \<in> set rel \<and>
     \<not> (\<exists>x. (a, x) \<in> set rel \<and> (x, d) \<in> set rel) \<and>
     (\<forall>k. poset_init (length elems + k) elems rel = Some (Inr p)) \<and>
     hasse_relations p = build_hasse_diagram rel \<and>
     (a, b) \<in> set (hasse_relations p) \<and> (b, c) \<in> set (hasse_relations p) \<and>
     (c, d) \<in> set (hasse_relations p) \<and> (a, d) \<in> set (hasse_relations p)"
proof -
  let ?elems = "[1::int, 2, 3, 4]"
  let ?rel = "[(1::int, 2::int), (2, 3), (3, 4), (1, 4)]"
  let ?p = "\<lparr>elements = [1::int, 2, 3, 4], relations = ?rel, hasse_relations = ?rel,
             levels = [(0, [1]), (1, [2]), (2, [3]), (3, [4])]\<rparr>"
  have b: "build_hasse_diagram ?rel = ?rel" by code_simp
  have s: "set ?rel \<subseteq> set ?elems \<times> set ?elems" by simp
  have c: "card (set ?elems) \<le> 4" by simp
  have i4: "poset_init 4 ?elems ?rel = Some (Inr ?p)" by code_simp
  have i: "poset_init (length ?elems + k) ?elems ?rel = Some (Inr ?p)" for k
  proof -
    from c have c': "card (set ?elems) \<le> 4 + k" by (rule trans_le_add1)
    have l: "length ?elems + k = 4 + k" by simp
    show ?thesis unfolding l poset_init_frames [OF s c' c] by (rule i4)
  qed
  have n: "\<not> (\<exists>x. (1::int, x) \<in> set ?rel \<and> (x, 4) \<in> set ?rel)" by auto
  show ?thesis
    apply (rule exI [of _ "[1, 2, 3, 4]"], rule exI [of _ ?rel])
    apply (rule exI [of _ 1], rule exI [of _ 2], rule exI [of _ 3], rule exI [of _ 4])
    apply (rule exI [of _ ?p])
    using b i n by simp
qed

text \<open>
  Claim C1.  \<open>is_lattice\<close> tests each bound with \<open>not\<close>, so a bound that is the element \<open>0\<close>
  (or the empty string) counts as missing.  On the elements \<open>0, 1\<close> with the relation
  \<open>(0, 1)\<close> the constructor succeeds, the only pair has the upper bound \<open>1\<close> and the lower
  bound \<open>0\<close>, both single candidates, and \<open>is_lattice\<close> returns \<open>False\<close>.
\<close>

theorem is_lattice_falsy_element:
  "poset_init (2 + k) [PInt 0, PInt 1] [(PInt 0, PInt 1)] =
     Some (Inr \<lparr>elements = [PInt 0, PInt 1], relations = [(PInt 0, PInt 1)],
                 hasse_relations = [(PInt 0, PInt 1)],
                 levels = [(0, [PInt 0]), (1, [PInt 1])]\<rparr>) \<and>
   combinations2 [PInt 0, PInt 1] = [(PInt 0, PInt 1)] \<and>
   upper_bound \<lparr>elements = [PInt 0, PInt 1], relations = [(PInt 0, PInt 1)],
                 hasse_relations = [(PInt 0, PInt 1)],
                 levels = [(0, [PInt 0]), (1, [PInt 1])]\<rparr> (PInt 0) (PInt 1) = Some (PInt 1) \<and>
   lower_bound \<lparr>elements = [PInt 0, PInt 1], relations = [(PInt 0, PInt 1)],
                 hasse_relations = [(PInt 0, PInt 1)],
                 levels = [(0, [PInt 0]), (1, [PInt 1])]\<rparr> (PInt 0) (PInt 1) = Some (PInt 0) \<and>
   is_lattice \<lparr>elements = [PInt 0, PInt 1], relations = [(PInt 0, PInt 1)],
                 hasse_relations = [(PInt 0, PInt 1)],
                 levels = [(0, [PInt 0]), (1, [PInt 1])]\<rparr> = False"
proof -
  let ?elems = "[PInt 0, PInt 1]"
  let ?rel = "[(PInt 0, PInt 1)]"
  let ?p = "\<lparr>elements = [PInt 0, PInt 1], relations = [(PInt 0, PInt 1)],
             hasse_relations = [(PInt 0, PInt 1)],
             levels = [(0, [PInt 0]), (1, [PInt 1])]\<rparr>"
  have s: "set ?rel \<subseteq> set ?elems \<times> set ?elems" by simp
  have c: "card (set ?elems) \<le> 2" by simp
  then have c': "card (set ?elems) \<le> 2 + k" by (rule trans_le_add1)
  have r: "poset_init 2 ?elems ?rel = Some (Inr ?p) \<and>
           combinations2 ?elems = [(PInt 0, PInt 1)] \<and>
           upper_bound ?p (PInt 0) (PInt 1) = Some (PInt 1) \<and>
           lower_bound ?p (PInt 0) (PInt 1) = Some (PInt 0) \<and>
           is_lattice ?p = False"
    by code_simp
  show ?thesis unfolding poset_init_frames [OF s c' c] by (rule r)
qed

text \<open>The same with the empty string as the least element.\<close>

lemma is_lattice_empty_string:
  "poset_init 2 [PStr [], PStr ''a''] [(PStr [], PStr ''a'')] =
     Some (Inr \<lparr>elements = [PStr [], PStr ''a''], relations = [(PStr [], PStr ''a'')],
                 hasse_relations = [(PStr [], PStr ''a'')],
                 levels = [(0, [PStr []]), (1, [PStr ''a''])]\<rparr>) \<and>
   lower_bound \<lparr>elements = [PStr [], PStr ''a''], relations = [(PStr [], PStr ''a'')],
                 hasse_relations = [(PStr [], PStr ''a'')],
                 levels = [(0, [PStr []]), (1, [PStr ''a''])]\<rparr> (PStr []) (PStr ''a'') = Some (PStr []) \<and>
   is_lattice \<lparr>elements = [PStr [], PStr ''a''], relations = [(PStr [], PStr ''a'')],
                 hasse_relations = [(PStr [], PStr ''a'')],
                 levels = [(0, [PStr []]), (1, [PStr ''a''])]\<rparr> = False"
  by code_simp

end
